theory Spec2Isabelle
  imports Main "HOL-Library.Extended_Nat"
begin

section \<open>The grid and the search state\<close>

text \<open>
  A cell object of the grid is identified by its coordinates \<open>(x, y)\<close>: the grid holds
  exactly one object per position, so reference equality of cells (\<open>===\<close>) is equality
  of positions. The mutable fields of the cell objects live in a store \<open>grid\<close> that maps
  a position to the fields of the cell there (\<open>grid[y][x]\<close> is \<open>grid s (x, y)\<close>).
  The scores are JavaScript numbers that are either \<open>Infinity\<close> or a natural number,
  hence \<open>enat\<close>.
\<close>

type_synonym pos = "int \<times> int"

record cell =
  obstacle :: bool
  g :: enat
  h :: enat
  f :: enat
  parent :: "pos option"

record state =
  cols :: int
  rows :: int
  grid :: "pos \<Rightarrow> cell"
  startCell :: "pos option"
  goalCell :: "pos option"
  drawMode :: string
  actionMode :: string
  openList :: "pos list"
  closedList :: "pos list"
  finalPath :: "pos list"
  isSimulationRunning :: bool
  delayEnabled :: bool

text \<open>The positions \<open>0 \<le> x < cols\<close>, \<open>0 \<le> y < rows\<close> that the grid has a cell for.\<close>

definition in_grid :: "state \<Rightarrow> pos \<Rightarrow> bool" where
  "in_grid s p = (case p of (x, y) \<Rightarrow> 0 \<le> x \<and> x < cols s \<and> 0 \<le> y \<and> y < rows s)"

text \<open>\<open>addNeighbors\<close>: left, right, up, down, in the order of the pushes.\<close>

definition addNeighbors :: "state \<Rightarrow> pos \<Rightarrow> pos list" where
  "addNeighbors s p = (case p of (x, y) \<Rightarrow>
     (if x > 0 then [(x - 1, y)] else []) @
     (if x < cols s - 1 then [(x + 1, y)] else []) @
     (if y > 0 then [(x, y - 1)] else []) @
     (if y < rows s - 1 then [(x, y + 1)] else []))"

definition manhattanDistance :: "pos \<Rightarrow> pos \<Rightarrow> nat" where
  "manhattanDistance a b =
     (case a of (x1, y1) \<Rightarrow> case b of (x2, y2) \<Rightarrow> nat (\<bar>x1 - x2\<bar> + \<bar>y1 - y2\<bar>))"

text \<open>
  The double loop over \<open>y < rows\<close>, \<open>x < cols\<close> that \<open>startSimulation\<close> and
  \<open>clearAlgorithmState\<close> both run: every cell of the grid gets
  \<open>g = Infinity\<close>, \<open>h = 0\<close>, \<open>f = Infinity\<close>, \<open>parent = null\<close>.
\<close>

definition resetCells :: "state \<Rightarrow> state" where
  "resetCells s = s\<lparr>grid := (\<lambda>p. if in_grid s p
       then (grid s p)\<lparr>g := \<infinity>, h := 0, f := \<infinity>, parent := None\<rparr>
       else grid s p)\<rparr>"

text \<open>
  The state \<open>setup\<close> builds, for a grid of the given size and the given start and
  goal cells: fresh cells, no obstacle, empty lists, draw mode \<open>'obstacle'\<close>, action
  mode \<open>'draw'\<close>, the delay switched on.
\<close>

definition freshCell :: cell where
  "freshCell = \<lparr>obstacle = False, g = \<infinity>, h = 0, f = \<infinity>, parent = None\<rparr>"

definition setupState :: "int \<Rightarrow> int \<Rightarrow> pos \<Rightarrow> pos \<Rightarrow> state" where
  "setupState cs rs st gl =
     \<lparr>cols = cs, rows = rs, grid = (\<lambda>p. freshCell),
      startCell = Some st, goalCell = Some gl,
      drawMode = ''obstacle'', actionMode = ''draw'',
      openList = [], closedList = [], finalPath = [],
      isSimulationRunning = False, delayEnabled = True\<rparr>"

section \<open>Editing the grid\<close>

text \<open>An assignment to fields of the cell at a position.\<close>

definition updCell :: "pos \<Rightarrow> (cell \<Rightarrow> cell) \<Rightarrow> state \<Rightarrow> state" where
  "updCell p u s = s\<lparr>grid := fun_upd (grid s) p (u (grid s p))\<rparr>"

definition stopSimulation :: "state \<Rightarrow> state" where
  "stopSimulation s = s\<lparr>isSimulationRunning := False\<rparr>"

definition clearAlgorithmState :: "state \<Rightarrow> state" where
  "clearAlgorithmState s =
     resetCells ((stopSimulation s)\<lparr>openList := [], closedList := [], finalPath := []\<rparr>)"

definition setObstacle :: "pos \<Rightarrow> bool \<Rightarrow> state \<Rightarrow> state" where
  "setObstacle p b s = updCell p (\<lambda>c. c\<lparr>obstacle := b\<rparr>) s"

text \<open>
  \<open>handleMouseAction\<close>, with the cell coordinates \<open>x = floor(mouseX / cellSize)\<close>,
  \<open>y = floor(mouseY / cellSize)\<close> as arguments. Every action mode other than
  \<open>'draw'\<close> erases.
\<close>

definition handleMouseAction :: "int \<Rightarrow> int \<Rightarrow> state \<Rightarrow> state" where
  "handleMouseAction x y s =
     (if x \<ge> 0 \<and> x < cols s \<and> y \<ge> 0 \<and> y < rows s then
        let c = (x, y);
            s1 =
              (if actionMode s = ''draw'' then
                 (if drawMode s = ''obstacle'' then
                    (if Some c \<noteq> startCell s \<and> Some c \<noteq> goalCell s
                     then setObstacle c True s else s)
                  else if drawMode s = ''start'' then
                    (let s' = (case startCell s of None \<Rightarrow> s
                               | Some st \<Rightarrow> setObstacle st False s)
                     in setObstacle c False (s'\<lparr>startCell := Some c\<rparr>))
                  else if drawMode s = ''goal'' then
                    (let s' = (case goalCell s of None \<Rightarrow> s
                               | Some gl \<Rightarrow> setObstacle gl False s)
                     in setObstacle c False (s'\<lparr>goalCell := Some c\<rparr>))
                  else s)
               else
                 (if obstacle (grid s c) then setObstacle c False s else s))
        in clearAlgorithmState s1
      else s)"

section \<open>Path reconstruction\<close>

text \<open>
  \<open>reconstructPath\<close>: the loop \<open>while (current) { finalPath.push(current); current =
  current.parent; }\<close> follows parent links for as long as there is one, so on a cyclic
  parent chain it never returns; that is the value \<open>None\<close>.
\<close>

partial_function (option) reconstructLoop ::
  "(pos \<Rightarrow> cell) \<Rightarrow> pos option \<Rightarrow> pos list \<Rightarrow> pos list option" where
  "reconstructLoop gr current path =
     (case current of None \<Rightarrow> Some path
      | Some c \<Rightarrow> reconstructLoop gr (parent (gr c)) (path @ [c]))"

declare reconstructLoop.simps [code]

definition reconstructPath :: "pos \<Rightarrow> state \<Rightarrow> state option" where
  "reconstructPath endCell s =
     (case reconstructLoop (grid s) (Some endCell) [] of None \<Rightarrow> None
      | Some path \<Rightarrow> Some (s\<lparr>finalPath := rev path\<rparr>))"

section \<open>The search loop of startSimulation\<close>

text \<open>
  How a call of \<open>startSimulation\<close> (or one pass of its loop) ends: the early return of
  a call made while a run is in progress, the \<open>break\<close> at the goal, the \<open>break\<close>
  of the iteration cap, the loop condition failing on an empty open list or on a cleared
  running flag, and the \<open>TypeError\<close> of reading a field of an undefined start or goal.
\<close>

datatype exit = AlreadyRunning | GoalFound | CapExceeded | OpenExhausted | Stopped | TypeError

datatype completion = Done state | Throws state

datatype progress = Next state | Exit exit state

text \<open>What \<open>sleep\<close> hands to \<open>await\<close>: an already resolved promise, or a timer.\<close>

datatype suspension = Resolved | Timeout

definition sleep :: "state \<Rightarrow> suspension" where
  "sleep s = (if \<not> delayEnabled s then Resolved else Timeout)"

text \<open>
  The scan for the lowest \<open>f\<close>: \<open>i\<close> is the index of the head of the list still to
  scan, and only a strictly smaller \<open>f\<close> replaces the current choice.
\<close>

fun scan :: "(pos \<Rightarrow> cell) \<Rightarrow> pos list \<Rightarrow> nat \<Rightarrow> pos \<times> nat \<Rightarrow> pos \<times> nat" where
  "scan gr [] i cur = cur"
| "scan gr (c # cs) i (currentCell, currentIndex) =
     (if f (gr c) < f (gr currentCell) then scan gr cs (i + 1) (c, i)
      else scan gr cs (i + 1) (currentCell, currentIndex))"

definition splice1 :: "nat \<Rightarrow> 'a list \<Rightarrow> 'a list" where
  "splice1 i xs = take i xs @ drop (Suc i) xs"

text \<open>
  The first half of a loop pass, up to the \<open>await\<close>: choose the current cell, splice it
  out of the open list and push it on the closed list. The loop condition has checked
  that the open list is not empty.
\<close>

definition selectCurrent :: "state \<Rightarrow> pos \<times> state" where
  "selectCurrent s =
     (case scan (grid s) (tl (openList s)) 1 (hd (openList s), 0) of
        (currentCell, currentIndex) \<Rightarrow>
          (currentCell, s\<lparr>openList := splice1 currentIndex (openList s),
                           closedList := closedList s @ [currentCell]\<rparr>))"

text \<open>The assignments at the end of the \<open>forEach\<close> callback.\<close>

definition relax :: "pos \<Rightarrow> enat \<Rightarrow> pos \<Rightarrow> state \<Rightarrow> completion" where
  "relax currentCell tentativeG neighbor s =
     (let s1 = updCell neighbor (\<lambda>c. c\<lparr>parent := Some currentCell, g := tentativeG\<rparr>) s
      in case goalCell s1 of
           None \<Rightarrow> Throws s1
         | Some gl \<Rightarrow>
             let s2 = updCell neighbor (\<lambda>c. c\<lparr>h := enat (manhattanDistance neighbor gl)\<rparr>) s1
             in Done (updCell neighbor (\<lambda>c. c\<lparr>f := g c + h c\<rparr>) s2))"

definition visit :: "pos \<Rightarrow> pos \<Rightarrow> state \<Rightarrow> completion" where
  "visit currentCell neighbor s =
     (if obstacle (grid s neighbor) \<or> neighbor \<in> set (closedList s) then Done s
      else
        let tentativeG = g (grid s currentCell) + 1 in
        if neighbor \<notin> set (openList s)
        then relax currentCell tentativeG neighbor (s\<lparr>openList := openList s @ [neighbor]\<rparr>)
        else if tentativeG \<ge> g (grid s neighbor) then Done s
        else relax currentCell tentativeG neighbor s)"

fun forEachNeighbor :: "pos \<Rightarrow> pos list \<Rightarrow> state \<Rightarrow> completion" where
  "forEachNeighbor currentCell [] s = Done s"
| "forEachNeighbor currentCell (n # ns) s =
     (case visit currentCell n s of
        Throws s' \<Rightarrow> Throws s'
      | Done s' \<Rightarrow> forEachNeighbor currentCell ns s')"

definition iterationCap :: nat where
  "iterationCap = 5000"

text \<open>
  The second half of a loop pass, from the \<open>await\<close> on: the goal test, the neighbours,
  the iteration cap. \<open>iterations\<close> is the counter after the increment of this pass.
  \<open>None\<close> is a path reconstruction that does not return.
\<close>

definition expandCurrent :: "nat \<Rightarrow> pos \<Rightarrow> state \<Rightarrow> progress option" where
  "expandCurrent iterations currentCell s =
     (if Some currentCell = goalCell s then
        (case reconstructPath currentCell s of None \<Rightarrow> None
         | Some s' \<Rightarrow> Some (Exit GoalFound s'))
      else
        (case forEachNeighbor currentCell (addNeighbors s currentCell) s of
           Throws s' \<Rightarrow> Some (Exit TypeError s')
         | Done s' \<Rightarrow>
             if iterations > iterationCap then Some (Exit CapExceeded s')
             else Some (Next s')))"

function whileLoop :: "nat \<Rightarrow> state \<Rightarrow> (exit \<times> state) option" where
  "whileLoop iterations s =
     (if openList s = [] then Some (OpenExhausted, s)
      else if \<not> isSimulationRunning s then Some (Stopped, s)
      else
        (case selectCurrent s of (currentCell, s1) \<Rightarrow>
           (case expandCurrent (iterations + 1) currentCell s1 of
              None \<Rightarrow> None
            | Some (Exit e s') \<Rightarrow> Some (e, s')
            | Some (Next s') \<Rightarrow> whileLoop (iterations + 1) s')))"
  by pat_completeness auto
termination
  by (relation "measure (\<lambda>(n, s). Suc iterationCap - n)")
     (auto simp: expandCurrent_def split: if_splits option.splits completion.splits)

text \<open>
  The statements of \<open>startSimulation\<close> before the loop. A missing start or goal cell
  throws at the first read of one of its fields, after the assignments before it.
\<close>

definition beginSimulation :: "state \<Rightarrow> completion" where
  "beginSimulation s =
     (let s1 = resetCells (s\<lparr>isSimulationRunning := True\<rparr>);
          s2 = s1\<lparr>openList := [], closedList := [], finalPath := []\<rparr>
      in case startCell s2 of
           None \<Rightarrow> Throws s2
         | Some st \<Rightarrow>
             (let s3 = updCell st (\<lambda>c. c\<lparr>g := 0\<rparr>) s2
              in (case goalCell s3 of
                    None \<Rightarrow> Throws s3
                  | Some gl \<Rightarrow>
                      (let s4 = updCell st (\<lambda>c. c\<lparr>h := enat (manhattanDistance st gl)\<rparr>) s3;
                           s5 = updCell st (\<lambda>c. c\<lparr>f := g c + h c\<rparr>) s4
                       in Done (s5\<lparr>openList := openList s5 @ [st]\<rparr>)))))"

definition startSimulation :: "state \<Rightarrow> (exit \<times> state) option" where
  "startSimulation s =
     (if isSimulationRunning s then Some (AlreadyRunning, s)
      else
        (case beginSimulation s of
           Throws s' \<Rightarrow> Some (TypeError, s')
         | Done s0 \<Rightarrow>
             (case whileLoop 0 s0 of
                None \<Rightarrow> None
              | Some (e, s') \<Rightarrow>
                  if e = TypeError then Some (TypeError, s')
                  else Some (e, s'\<lparr>isSimulationRunning := False\<rparr>))))"

section \<open>Runs and their states\<close>

text \<open>The cell that the assignments at the end of the \<open>forEach\<close> callback leave.\<close>

definition relaxed :: "pos \<Rightarrow> enat \<Rightarrow> pos \<Rightarrow> pos \<Rightarrow> cell \<Rightarrow> cell" where
  "relaxed cur tg n gl c = c\<lparr>parent := Some cur, g := tg, h := enat (manhattanDistance n gl),
       f := tg + enat (manhattanDistance n gl)\<rparr>"

text \<open>What the whole \<open>forEach\<close> does to one of the neighbours.\<close>

definition neighborOutcome :: "pos \<Rightarrow> pos \<Rightarrow> pos \<Rightarrow> state \<Rightarrow> state \<Rightarrow> bool" where
  "neighborOutcome cur gl n s s' =
     (if obstacle (grid s n) \<or> n \<in> set (closedList s)
        then grid s' n = grid s n \<and> (n \<in> set (openList s') \<longleftrightarrow> n \<in> set (openList s))
      else if n \<notin> set (openList s)
        then n \<in> set (openList s') \<and> grid s' n = relaxed cur (g (grid s cur) + 1) n gl (grid s n)
      else if g (grid s cur) + 1 < g (grid s n)
        then n \<in> set (openList s') \<and> grid s' n = relaxed cur (g (grid s cur) + 1) n gl (grid s n)
      else n \<in> set (openList s') \<and> grid s' n = grid s n)"

text \<open>
  The passes of the loop, one entry for each: the iteration counter after its increment,
  what \<open>sleep\<close> returned, the current cell, and the state at the \<open>await\<close>.
\<close>

function loopTrace :: "nat \<Rightarrow> state \<Rightarrow> (nat \<times> suspension \<times> pos \<times> state) list" where
  "loopTrace iterations s =
     (if openList s = [] \<or> \<not> isSimulationRunning s then []
      else
        (case selectCurrent s of (currentCell, s1) \<Rightarrow>
           (iterations + 1, sleep s1, currentCell, s1) #
           (case expandCurrent (iterations + 1) currentCell s1 of
              Some (Next s') \<Rightarrow> loopTrace (iterations + 1) s'
            | _ \<Rightarrow> [])))"
  by pat_completeness auto
termination
  by (relation "measure (\<lambda>(n, s). Suc iterationCap - n)")
     (auto simp: expandCurrent_def split: if_splits option.splits completion.splits)

text \<open>
  The states a run goes through, in order: the state at each loop head, the state at each
  \<open>await\<close>, and the state the loop is left with.
\<close>

function loopStates :: "nat \<Rightarrow> state \<Rightarrow> state list" where
  "loopStates iterations s =
     (if openList s = [] \<or> \<not> isSimulationRunning s then [s]
      else
        (case selectCurrent s of (currentCell, s1) \<Rightarrow>
           s # s1 #
           (case expandCurrent (iterations + 1) currentCell s1 of
              None \<Rightarrow> []
            | Some (Exit e s') \<Rightarrow> [s']
            | Some (Next s') \<Rightarrow> loopStates (iterations + 1) s')))"
  by pat_completeness auto
termination
  by (relation "measure (\<lambda>(n, s). Suc iterationCap - n)")
     (auto simp: expandCurrent_def split: if_splits option.splits completion.splits)

declare whileLoop.simps [simp del] loopTrace.simps [simp del] loopStates.simps [simp del]

text \<open>The search state that the delay is claimed not to touch.\<close>

definition searchState :: "state \<Rightarrow> pos list \<times> pos list \<times> pos list \<times> (pos \<Rightarrow> cell)" where
  "searchState s = (openList s, closedList s, finalPath s, grid s)"

text \<open>The passes of a whole call of \<open>startSimulation\<close>.\<close>

definition startTrace :: "state \<Rightarrow> (nat \<times> suspension \<times> pos \<times> state) list" where
  "startTrace s =
     (if isSimulationRunning s then []
      else case beginSimulation s of Throws s' \<Rightarrow> [] | Done s0 \<Rightarrow> loopTrace 0 s0)"

text \<open>Setting the delay switch, and a change of state carried through the result types.\<close>

definition setDelay :: "bool \<Rightarrow> state \<Rightarrow> state" where
  "setDelay b s = s\<lparr>delayEnabled := b\<rparr>"

fun completionMap :: "(state \<Rightarrow> state) \<Rightarrow> completion \<Rightarrow> completion" where
  "completionMap u (Done s) = Done (u s)"
| "completionMap u (Throws s) = Throws (u s)"

fun progressMap :: "(state \<Rightarrow> state) \<Rightarrow> progress \<Rightarrow> progress" where
  "progressMap u (Next s) = Next (u s)"
| "progressMap u (Exit e s) = Exit e (u s)"

text \<open>
  A pass of the loop with an event handler running during its \<open>await\<close>. With the delay
  on, \<open>await\<close> waits for a timer, and the browser can dispatch a mouse event before the
  function resumes; on a resolved promise the function resumes first.
\<close>

definition passWithEvent :: "nat \<Rightarrow> (state \<Rightarrow> state) \<Rightarrow> state \<Rightarrow> (exit \<times> state) option" where
  "passWithEvent iterations handler s =
     (case selectCurrent s of (currentCell, s1) \<Rightarrow>
        (let s2 = (case sleep s1 of Timeout \<Rightarrow> handler s1 | Resolved \<Rightarrow> s1)
         in case expandCurrent (iterations + 1) currentCell s2 of
              None \<Rightarrow> None
            | Some (Exit e s') \<Rightarrow> Some (e, s')
            | Some (Next s') \<Rightarrow> whileLoop (iterations + 1) s'))"

text \<open>\<open>startSimulation\<close> with an event handler running during the \<open>await\<close> of its first pass.\<close>

definition startSimulationWithEvent :: "(state \<Rightarrow> state) \<Rightarrow> state \<Rightarrow> (exit \<times> state) option" where
  "startSimulationWithEvent handler s =
     (if isSimulationRunning s then Some (AlreadyRunning, s)
      else
        (case beginSimulation s of
           Throws s' \<Rightarrow> Some (TypeError, s')
         | Done s0 \<Rightarrow>
             (case passWithEvent 0 handler s0 of
                None \<Rightarrow> None
              | Some (e, s') \<Rightarrow>
                  if e = TypeError then Some (TypeError, s')
                  else Some (e, s'\<lparr>isSimulationRunning := False\<rparr>))))"

text \<open>The open and the closed list hold no cell twice and share no cell.\<close>

definition listsDisjoint :: "state \<Rightarrow> bool" where
  "listsDisjoint s = (distinct (openList s) \<and> distinct (closedList s)
     \<and> set (openList s) \<inter> set (closedList s) = {})"

text \<open>
  A later state of the same run: the closed list has only grown at its end, and the cells
  that were closed are as they were.
\<close>

definition laterState :: "state \<Rightarrow> state \<Rightarrow> bool" where
  "laterState s t = ((\<exists>ys. closedList t = closedList s @ ys)
     \<and> (\<forall>c\<in>set (closedList s). grid t c = grid s c))"

text \<open>The invariant of the loop for the two lists.\<close>

definition runInvariant :: "state \<Rightarrow> bool" where
  "runInvariant s = (listsDisjoint s \<and> goalCell s \<noteq> None)"

text \<open>The states of the run that a call of \<open>startSimulation\<close> makes.\<close>

definition startStates :: "state \<Rightarrow> state list" where
  "startStates s =
     (if isSimulationRunning s then []
      else case beginSimulation s of Throws s' \<Rightarrow> [] | Done s0 \<Rightarrow> loopStates 0 s0)"

text \<open>
  The search tree: the start cell is the root, with \<open>g = 0\<close> and no parent; every other
  cell of the open or closed list has a closed parent that it is a neighbour of, is not an
  obstacle, and has the parent's \<open>g\<close> plus one; and these \<open>g\<close> are finite.
\<close>

definition treeInv :: "pos \<Rightarrow> state \<Rightarrow> bool" where
  "treeInv st s =
     (st \<in> set (openList s) \<union> set (closedList s)
      \<and> parent (grid s st) = None \<and> g (grid s st) = 0
      \<and> (\<forall>c\<in>set (openList s) \<union> set (closedList s). c \<noteq> st \<longrightarrow>
            (\<exists>p. parent (grid s c) = Some p \<and> p \<in> set (closedList s)
                 \<and> c \<in> set (addNeighbors s p) \<and> \<not> obstacle (grid s c)
                 \<and> g (grid s c) = g (grid s p) + 1))
      \<and> (\<forall>c\<in>set (openList s) \<union> set (closedList s). g (grid s c) \<noteq> \<infinity>))"

text \<open>
  A list of cells in which each cell's parent is the next cell and the last cell has no
  parent: what the loop of \<open>reconstructPath\<close> collects.
\<close>

fun parentChain :: "(pos \<Rightarrow> cell) \<Rightarrow> pos list \<Rightarrow> bool" where
  "parentChain gr [] = False"
| "parentChain gr [c] = (parent (gr c) = None)"
| "parentChain gr (c # d # cs) = (parent (gr c) = Some d \<and> parentChain gr (d # cs))"

text \<open>The invariant of the loop for the path of a run.\<close>

definition pathInvariant :: "pos \<Rightarrow> pos \<Rightarrow> state \<Rightarrow> bool" where
  "pathInvariant st gl s = (treeInv st s \<and> listsDisjoint s \<and> goalCell s = Some gl)"

text \<open>
  A path of the grid: each cell is a neighbour of the cell before it and is not an
  obstacle.
\<close>

fun stepsFree :: "state \<Rightarrow> pos list \<Rightarrow> bool" where
  "stepsFree s [] = True"
| "stepsFree s [p] = True"
| "stepsFree s (p # q # ps) =
     (q \<in> set (addNeighbors s p) \<and> \<not> obstacle (grid s q) \<and> stepsFree s (q # ps))"

text \<open>
  What a run that ends at the goal leaves: a path of the grid from the start cell to the
  goal cell that, read backwards, is the parent chain of the goal cell, with one cell more
  than the goal cell's \<open>g\<close>.
\<close>

definition pathFound :: "pos \<Rightarrow> pos \<Rightarrow> state \<Rightarrow> bool" where
  "pathFound st gl t = (finalPath t \<noteq> [] \<and> hd (finalPath t) = st \<and> last (finalPath t) = gl
     \<and> parentChain (grid t) (rev (finalPath t)) \<and> stepsFree t (finalPath t)
     \<and> enat (length (finalPath t)) = g (grid t gl) + 1)"

text \<open>
  The scores of the cells of the open and closed list: \<open>g\<close> is a number, at least the
  Manhattan distance from the start, and \<open>f\<close> is \<open>g\<close> plus the Manhattan distance to
  the goal. These cells are cells of the grid.
\<close>

definition scoreInv :: "pos \<Rightarrow> pos \<Rightarrow> state \<Rightarrow> bool" where
  "scoreInv st gl s =
     (\<forall>c\<in>set (openList s) \<union> set (closedList s). in_grid s c
        \<and> (\<exists>k. g (grid s c) = enat k \<and> manhattanDistance st c \<le> k
               \<and> f (grid s c) = enat (k + manhattanDistance c gl)))"

text \<open>A step from a cell towards another, first along \<open>x\<close>, then along \<open>y\<close>.\<close>

fun towards :: "pos \<Rightarrow> pos \<Rightarrow> pos" where
  "towards (x1, y1) (x2, y2) =
     (if x1 < x2 then (x1 + 1, y1) else if x2 < x1 then (x1 - 1, y1)
      else if y1 < y2 then (x1, y1 + 1) else (x1, y1 - 1))"

fun walk :: "nat \<Rightarrow> pos \<Rightarrow> pos \<Rightarrow> pos list" where
  "walk 0 p q = []"
| "walk (Suc n) p q = towards p q # walk n (towards p q) q"

section \<open>Invariants of the search\<close>

text \<open>
  The closed cells other than those in \<open>X\<close> are expanded: each of their neighbours that
  is not an obstacle is in the open or the closed list, with a \<open>g\<close> of at most one more.
\<close>

definition expandedInv :: "pos set \<Rightarrow> state \<Rightarrow> bool" where
  "expandedInv X s =
     (\<forall>c\<in>set (closedList s) - X. \<forall>n\<in>set (addNeighbors s c).
        \<not> obstacle (grid s n) \<longrightarrow>
        n \<in> set (openList s) \<union> set (closedList s) \<and> g (grid s n) \<le> g (grid s c) + 1)"

text \<open>No closed cell has an \<open>f\<close> above \<open>m\<close>.\<close>

definition closedInv :: "nat \<Rightarrow> state \<Rightarrow> bool" where
  "closedInv m s = (\<forall>c\<in>set (closedList s). f (grid s c) \<le> enat m)"

text \<open>No closed cell has an \<open>f\<close> above that of an open cell.\<close>

definition monoInv :: "state \<Rightarrow> bool" where
  "monoInv s = (\<forall>c\<in>set (closedList s). \<forall>d\<in>set (openList s). f (grid s c) \<le> f (grid s d))"

text \<open>
  The \<open>g\<close> of a closed cell is less than the number of closed cells, and the \<open>g\<close> of
  an open cell is at most that number.
\<close>

definition depthInv :: "state \<Rightarrow> bool" where
  "depthInv s =
     ((\<forall>c\<in>set (closedList s). g (grid s c) < enat (length (closedList s)))
      \<and> (\<forall>c\<in>set (openList s). g (grid s c) \<le> enat (length (closedList s))))"

text \<open>
  While the neighbours of the current cell are visited, no closed cell has an \<open>f\<close> above
  that of the current cell.
\<close>

definition topInv :: "pos \<Rightarrow> state \<Rightarrow> bool" where
  "topInv cur s = (\<forall>c\<in>set (closedList s). f (grid s c) \<le> f (grid s cur))"

text \<open>The invariants that every visit keeps, for the whole \<open>forEach\<close>.\<close>

definition visitInv :: "pos \<Rightarrow> pos \<Rightarrow> pos \<Rightarrow> nat \<Rightarrow> state \<Rightarrow> bool" where
  "visitInv cur st gl m s =
     (scoreInv st gl s \<and> closedInv m s \<and> monoInv s \<and> topInv cur s \<and> depthInv s
      \<and> expandedInv {cur} s \<and> goalCell s = Some gl \<and> cur \<in> set (closedList s))"

text \<open>
  The invariant of the loop on a grid with a free path of \<open>m\<close> steps from the start cell
  to the goal cell; \<open>n\<close> is the iteration counter.
\<close>

definition searchInv :: "state \<Rightarrow> pos \<Rightarrow> pos \<Rightarrow> nat \<Rightarrow> nat \<Rightarrow> state \<Rightarrow> bool" where
  "searchInv s0 st gl m n s =
     (pathInvariant st gl s \<and> scoreInv st gl s \<and> closedInv m s \<and> monoInv s \<and> depthInv s
      \<and> expandedInv {} s \<and> gl \<notin> set (closedList s) \<and> isSimulationRunning s
      \<and> length (closedList s) = n \<and> finalPath s = []
      \<and> cols s = cols s0 \<and> rows s = rows s0
      \<and> (\<forall>p. obstacle (grid s p) = obstacle (grid s0 p)))"

text \<open>
  The cells that a search along a path of \<open>m\<close> steps can close: those of the grid over
  which the way from the start cell to the goal cell is no longer than \<open>m\<close>.
\<close>

definition withinReach :: "state \<Rightarrow> pos \<Rightarrow> pos \<Rightarrow> nat \<Rightarrow> pos set" where
  "withinReach s st gl m =
     {c. in_grid s c \<and> manhattanDistance st c + manhattanDistance c gl \<le> m}"

text \<open>How the loop ends on a grid with a free path from the start cell to the goal cell.\<close>

definition searchEnd :: "state \<Rightarrow> pos \<Rightarrow> pos \<Rightarrow> nat \<Rightarrow> exit \<Rightarrow> state \<Rightarrow> bool" where
  "searchEnd s0 st gl m e t =
     ((e = GoalFound \<or> e = CapExceeded)
      \<and> (card (withinReach s0 st gl m) \<le> Suc iterationCap \<longrightarrow> e = GoalFound)
      \<and> (e = GoalFound \<longrightarrow> pathFound st gl t \<and> g (grid t gl) \<le> enat m
             \<and> g (grid t gl) < enat (length (closedList t)))
      \<and> (e = CapExceeded \<longrightarrow> openList t \<noteq> [] \<and> finalPath t = [])
      \<and> length (closedList t) \<le> Suc iterationCap)"

text \<open>How the loop ends with respect to the iteration cap.\<close>

definition capEnd :: "pos \<Rightarrow> exit \<Rightarrow> state \<Rightarrow> bool" where
  "capEnd gl e t =
     (length (closedList t) \<le> Suc iterationCap
      \<and> (e = CapExceeded \<longleftrightarrow>
            length (closedList t) = Suc iterationCap \<and> last (closedList t) \<noteq> gl)
      \<and> (e = CapExceeded \<longrightarrow> finalPath t = []))"

section \<open>Fields that the operations keep\<close>

lemma expandCurrent_Next_cap:
  "expandCurrent n c s = Some (Next s') \<Longrightarrow> n \<le> iterationCap"
  by (auto simp: expandCurrent_def split: if_splits option.splits completion.splits)

lemma updCell_fields [simp]:
  "cols (updCell p u s) = cols s"
  "rows (updCell p u s) = rows s"
  "startCell (updCell p u s) = startCell s"
  "goalCell (updCell p u s) = goalCell s"
  "drawMode (updCell p u s) = drawMode s"
  "actionMode (updCell p u s) = actionMode s"
  "openList (updCell p u s) = openList s"
  "closedList (updCell p u s) = closedList s"
  "finalPath (updCell p u s) = finalPath s"
  "isSimulationRunning (updCell p u s) = isSimulationRunning s"
  "delayEnabled (updCell p u s) = delayEnabled s"
  by (simp_all add: updCell_def)

lemma grid_updCell [simp]:
  "grid (updCell p u s) q = (if q = p then u (grid s p) else grid s q)"
  by (simp add: updCell_def)

lemma updCell_updCell: "updCell p u (updCell p v s) = updCell p (u \<circ> v) s"
  by (simp add: updCell_def)

lemma relax_Done:
  "goalCell s = Some gl \<Longrightarrow>
   relax cur tg n s = Done (updCell n (relaxed cur tg n gl) s)"
  by (simp add: relax_def Let_def updCell_updCell relaxed_def comp_def)
     (simp add: updCell_def relaxed_def)

lemma relax_Throws:
  "goalCell s = None \<Longrightarrow>
   relax cur tg n s = Throws (updCell n (\<lambda>c. c\<lparr>parent := Some cur, g := tg\<rparr>) s)"
  by (simp add: relax_def Let_def)

lemma visit_Done:
  assumes "goalCell s = Some gl"
  shows "visit cur n s = Done
     (if obstacle (grid s n) \<or> n \<in> set (closedList s) then s
      else if n \<notin> set (openList s)
        then updCell n (relaxed cur (g (grid s cur) + 1) n gl) (s\<lparr>openList := openList s @ [n]\<rparr>)
      else if g (grid s cur) + 1 \<ge> g (grid s n) then s
      else updCell n (relaxed cur (g (grid s cur) + 1) n gl) s)"
  using assms by (simp add: visit_def Let_def relax_Done)

lemma forEachNeighbor_total:
  "goalCell s = Some gl \<Longrightarrow> \<exists>s'. forEachNeighbor cur ns s = Done s' \<and> goalCell s' = Some gl"
proof (induction ns arbitrary: s)
  case Nil
  then show ?case by simp
next
  case (Cons n ns)
  obtain s1 where v: "visit cur n s = Done s1" and g1: "goalCell s1 = Some gl"
    using Cons.prems by (simp add: visit_Done)
  from Cons.IH [OF g1] v show ?case by simp
qed

text \<open>What a visit leaves alone.\<close>

lemma visit_frame:
  assumes "visit cur n s = Done s'"
  shows "cols s' = cols s" "rows s' = rows s" "startCell s' = startCell s"
    "goalCell s' = goalCell s" "closedList s' = closedList s" "finalPath s' = finalPath s"
    "isSimulationRunning s' = isSimulationRunning s" "delayEnabled s' = delayEnabled s"
    "drawMode s' = drawMode s" "actionMode s' = actionMode s"
proof -
  show "cols s' = cols s" "rows s' = rows s" "startCell s' = startCell s"
    "goalCell s' = goalCell s" "closedList s' = closedList s" "finalPath s' = finalPath s"
    "isSimulationRunning s' = isSimulationRunning s" "delayEnabled s' = delayEnabled s"
    "drawMode s' = drawMode s" "actionMode s' = actionMode s"
    using assms
    by (cases "goalCell s"; auto simp: visit_def Let_def relax_Done relax_Throws split: if_splits)+
qed

lemma visit_grid_other:
  "visit cur n s = Done s' \<Longrightarrow> p \<noteq> n \<Longrightarrow> grid s' p = grid s p"
  by (cases "goalCell s"; auto simp: visit_def Let_def relax_Done relax_Throws split: if_splits)

lemma visit_obstacle:
  "visit cur n s = Done s' \<Longrightarrow> obstacle (grid s' p) = obstacle (grid s p)"
  by (cases "goalCell s"; auto simp: visit_def Let_def relax_Done relax_Throws relaxed_def split: if_splits)

lemma visit_openList:
  "visit cur n s = Done s' \<Longrightarrow>
   openList s' = openList s \<or> (n \<notin> set (openList s) \<and> openList s' = openList s @ [n])"
  by (cases "goalCell s"; auto simp: visit_def Let_def relax_Done relax_Throws split: if_splits)

lemma in_grid_updCell [simp]: "in_grid (updCell p u s) = in_grid s"
  by (simp add: in_grid_def fun_eq_iff)

lemma resetCells_fields [simp]:
  "cols (resetCells s) = cols s"
  "rows (resetCells s) = rows s"
  "startCell (resetCells s) = startCell s"
  "goalCell (resetCells s) = goalCell s"
  "drawMode (resetCells s) = drawMode s"
  "actionMode (resetCells s) = actionMode s"
  "openList (resetCells s) = openList s"
  "closedList (resetCells s) = closedList s"
  "finalPath (resetCells s) = finalPath s"
  "isSimulationRunning (resetCells s) = isSimulationRunning s"
  "delayEnabled (resetCells s) = delayEnabled s"
  by (simp_all add: resetCells_def)

lemma grid_resetCells:
  "grid (resetCells s) p = (if in_grid s p
     then (grid s p)\<lparr>g := \<infinity>, h := 0, f := \<infinity>, parent := None\<rparr> else grid s p)"
  by (simp add: resetCells_def)

lemma in_grid_resetCells [simp]: "in_grid (resetCells s) = in_grid s"
  by (simp add: in_grid_def fun_eq_iff)

lemma in_grid_cong:
  "cols s = cols t \<Longrightarrow> rows s = rows t \<Longrightarrow> in_grid s = in_grid t"
  by (simp add: in_grid_def fun_eq_iff)

lemma clearAlgorithmState_fields [simp]:
  "cols (clearAlgorithmState s) = cols s"
  "rows (clearAlgorithmState s) = rows s"
  "startCell (clearAlgorithmState s) = startCell s"
  "goalCell (clearAlgorithmState s) = goalCell s"
  "drawMode (clearAlgorithmState s) = drawMode s"
  "actionMode (clearAlgorithmState s) = actionMode s"
  "openList (clearAlgorithmState s) = []"
  "closedList (clearAlgorithmState s) = []"
  "finalPath (clearAlgorithmState s) = []"
  "isSimulationRunning (clearAlgorithmState s) = False"
  "delayEnabled (clearAlgorithmState s) = delayEnabled s"
  by (simp_all add: clearAlgorithmState_def stopSimulation_def)

lemma in_grid_clearAlgorithmState [simp]: "in_grid (clearAlgorithmState s) = in_grid s"
  by (rule in_grid_cong) simp_all

lemma setObstacle_fields [simp]:
  "cols (setObstacle p b s) = cols s"
  "rows (setObstacle p b s) = rows s"
  "startCell (setObstacle p b s) = startCell s"
  "goalCell (setObstacle p b s) = goalCell s"
  "isSimulationRunning (setObstacle p b s) = isSimulationRunning s"
  by (simp_all add: setObstacle_def)

section \<open>Start and goal on one cell\<close>

text \<open>A run whose start cell is its goal cell.\<close>

lemma beginSimulation_same:
  assumes "startCell s = Some p" "goalCell s = Some p" "in_grid s p"
  shows "\<exists>s0. beginSimulation s = Done s0 \<and> openList s0 = [p] \<and> closedList s0 = []
           \<and> goalCell s0 = Some p \<and> isSimulationRunning s0 \<and> parent (grid s0 p) = None"
  using assms
  by (simp add: beginSimulation_def Let_def grid_resetCells
        in_grid_cong [of "s\<lparr>isSimulationRunning := True\<rparr>" s])

lemma reconstructPath_root:
  "parent (grid s p) = None \<Longrightarrow> reconstructPath p s = Some (s\<lparr>finalPath := [p]\<rparr>)"
  by (simp add: reconstructPath_def reconstructLoop.simps)

lemma whileLoop_same:
  assumes "openList s0 = [p]" "closedList s0 = []" "goalCell s0 = Some p"
    "isSimulationRunning s0" "parent (grid s0 p) = None"
  shows "whileLoop 0 s0 = Some (GoalFound, s0\<lparr>openList := [], closedList := [p], finalPath := [p]\<rparr>)"
  using assms
  by (subst whileLoop.simps)
     (simp add: selectCurrent_def splice1_def expandCurrent_def reconstructPath_root)

lemma startSimulation_same:
  assumes "startCell s = Some p" "goalCell s = Some p" "in_grid s p" "\<not> isSimulationRunning s"
  shows "\<exists>s'. startSimulation s = Some (GoalFound, s') \<and> finalPath s' = [p]
           \<and> closedList s' = [p] \<and> openList s' = [] \<and> \<not> isSimulationRunning s'"
proof -
  from beginSimulation_same [OF assms(1-3)] obtain s0 where
    b: "beginSimulation s = Done s0" and
    s0: "openList s0 = [p]" "closedList s0 = []" "goalCell s0 = Some p"
        "isSimulationRunning s0" "parent (grid s0 p) = None"
    by blast
  show ?thesis
    using assms(4) b whileLoop_same [OF s0]
    by (simp add: startSimulation_def)
qed

lemma handleMouseAction_start:
  assumes "in_grid s (x, y)" "actionMode s = ''draw''" "drawMode s = ''start''"
  shows "startCell (handleMouseAction x y s) = Some (x, y)"
    and "goalCell (handleMouseAction x y s) = goalCell s"
  using assms
  by (simp_all add: handleMouseAction_def in_grid_def Let_def split: option.splits)

lemma handleMouseAction_goal:
  assumes "in_grid s (x, y)" "actionMode s = ''draw''" "drawMode s = ''goal''"
  shows "goalCell (handleMouseAction x y s) = Some (x, y)"
    and "startCell (handleMouseAction x y s) = startCell s"
  using assms
  by (simp_all add: handleMouseAction_def in_grid_def Let_def split: option.splits)

lemma handleMouseAction_common:
  "in_grid (handleMouseAction x y s) = in_grid s"
  "in_grid s (x, y) \<Longrightarrow> \<not> isSimulationRunning (handleMouseAction x y s)"
  by (simp_all add: handleMouseAction_def in_grid_def Let_def fun_eq_iff split: option.splits)

text \<open>
  Claim C10. Nothing stops the start and the goal marker from sharing a cell: drawing the
  start on the goal's cell (or the goal on the start's cell) is accepted, and a run
  started then ends at the goal in its first pass, with that one cell as the whole path.
\<close>

theorem coinciding_endpoints:
  assumes "in_grid s (x, y)" and "actionMode s = ''draw''"
    and "drawMode s = ''start'' \<and> goalCell s = Some (x, y)
         \<or> drawMode s = ''goal'' \<and> startCell s = Some (x, y)"
  shows "startCell (handleMouseAction x y s) = Some (x, y)
       \<and> goalCell (handleMouseAction x y s) = Some (x, y)
       \<and> (\<exists>s'. startSimulation (handleMouseAction x y s) = Some (GoalFound, s')
              \<and> closedList s' = [(x, y)] \<and> finalPath s' = [(x, y)])"
proof -
  let ?t = "handleMouseAction x y s"
  have e: "startCell ?t = Some (x, y)" "goalCell ?t = Some (x, y)"
    using assms handleMouseAction_start [of s x y] handleMouseAction_goal [of s x y]
    by auto
  have "in_grid ?t (x, y)" "\<not> isSimulationRunning ?t"
    using assms(1) by (simp_all add: handleMouseAction_common)
  from startSimulation_same [OF e this] e show ?thesis by blast
qed

theorem coinciding_endpoints_witness:
  "startCell (handleMouseAction 1 1 ((setupState 3 3 (0, 0) (1, 1))\<lparr>drawMode := ''start''\<rparr>)) = Some (1, 1)
   \<and> goalCell (handleMouseAction 1 1 ((setupState 3 3 (0, 0) (1, 1))\<lparr>drawMode := ''start''\<rparr>)) = Some (1, 1)
   \<and> (\<exists>s'. startSimulation (handleMouseAction 1 1 ((setupState 3 3 (0, 0) (1, 1))\<lparr>drawMode := ''start''\<rparr>))
          = Some (GoalFound, s') \<and> closedList s' = [(1, 1)] \<and> finalPath s' = [(1, 1)])"
  using coinciding_endpoints [of "(setupState 3 3 (0, 0) (1, 1))\<lparr>drawMode := ''start''\<rparr>" 1 1]
  by (simp add: setupState_def in_grid_def)

section \<open>Starting a run\<close>

lemma forEachNeighbor_Throws:
  "forEachNeighbor cur ns s = Throws s' \<Longrightarrow> goalCell s = None"
  using forEachNeighbor_total [of s _ cur ns] by (cases "goalCell s") auto

lemma forEachNeighbor_goalCell:
  "forEachNeighbor cur ns s = Done s' \<Longrightarrow> goalCell s' = goalCell s"
proof (induction ns arbitrary: s)
  case Nil
  then show ?case by simp
next
  case (Cons n ns)
  then show ?case
    by (auto split: completion.splits dest: visit_frame(4))
qed

lemma selectCurrent_fields:
  assumes "selectCurrent s = (c, s1)"
  shows "cols s1 = cols s" "rows s1 = rows s" "grid s1 = grid s" "startCell s1 = startCell s"
    "goalCell s1 = goalCell s" "finalPath s1 = finalPath s"
    "isSimulationRunning s1 = isSimulationRunning s" "delayEnabled s1 = delayEnabled s"
    "closedList s1 = closedList s @ [c]"
  using assms by (auto simp: selectCurrent_def split: prod.splits)

lemma reconstructPath_fields:
  assumes "reconstructPath c s = Some s'"
  shows "cols s' = cols s" "rows s' = rows s" "grid s' = grid s" "startCell s' = startCell s"
    "goalCell s' = goalCell s" "openList s' = openList s" "closedList s' = closedList s"
    "isSimulationRunning s' = isSimulationRunning s" "delayEnabled s' = delayEnabled s"
  using assms by (auto simp: reconstructPath_def split: option.splits)

lemma expandCurrent_Next_goalCell:
  "expandCurrent n c s = Some (Next s') \<Longrightarrow> goalCell s' = goalCell s"
  by (auto simp: expandCurrent_def split: if_splits option.splits completion.splits
      dest: forEachNeighbor_goalCell)

lemma expandCurrent_TypeError:
  "expandCurrent n c s = Some (Exit TypeError s') \<Longrightarrow> goalCell s = None"
  by (auto simp: expandCurrent_def split: if_splits option.splits completion.splits
      dest: forEachNeighbor_Throws)

text \<open>One unfolding of the loop, by the way the pass ends.\<close>

lemma whileLoop_empty: "openList s = [] \<Longrightarrow> whileLoop n s = Some (OpenExhausted, s)"
  by (subst whileLoop.simps) simp

lemma whileLoop_stopped:
  "openList s \<noteq> [] \<Longrightarrow> \<not> isSimulationRunning s \<Longrightarrow> whileLoop n s = Some (Stopped, s)"
  by (subst whileLoop.simps) simp

lemma whileLoop_pass:
  assumes "openList s \<noteq> []" "isSimulationRunning s" "selectCurrent s = (c, s1)"
  shows "whileLoop n s =
     (case expandCurrent (n + 1) c s1 of None \<Rightarrow> None
      | Some (Exit e s') \<Rightarrow> Some (e, s')
      | Some (Next s') \<Rightarrow> whileLoop (n + 1) s')"
  using assms by (subst whileLoop.simps) simp

text \<open>
  The invariant rule of the loop: what holds at the loop head and survives a pass holds of
  every way the loop ends.
\<close>

lemma whileLoop_rule:
  assumes run: "whileLoop n s = Some (e, t)"
    and init: "I s"
    and pass: "\<And>s c s1 k s2. I s \<Longrightarrow> openList s \<noteq> [] \<Longrightarrow> isSimulationRunning s \<Longrightarrow>
        selectCurrent s = (c, s1) \<Longrightarrow> expandCurrent k c s1 = Some (Next s2) \<Longrightarrow> I s2"
    and leave: "\<And>s c s1 k e t. I s \<Longrightarrow> openList s \<noteq> [] \<Longrightarrow> isSimulationRunning s \<Longrightarrow>
        selectCurrent s = (c, s1) \<Longrightarrow> expandCurrent k c s1 = Some (Exit e t) \<Longrightarrow> Q e t"
    and empty: "\<And>s. I s \<Longrightarrow> openList s = [] \<Longrightarrow> Q OpenExhausted s"
    and stopped: "\<And>s. I s \<Longrightarrow> openList s \<noteq> [] \<Longrightarrow> \<not> isSimulationRunning s \<Longrightarrow> Q Stopped s"
  shows "Q e t"
  using run init
proof (induction n s rule: whileLoop.induct)
  case (1 n s)
  show ?case
  proof (cases "openList s = []")
    case True
    with "1.prems" empty show ?thesis by (simp add: whileLoop_empty)
  next
    case nonempty: False
    show ?thesis
    proof (cases "isSimulationRunning s")
      case False
      with nonempty "1.prems" stopped show ?thesis by (simp add: whileLoop_stopped)
    next
      case True
      obtain c s1 where sel: "selectCurrent s = (c, s1)" by (cases "selectCurrent s")
      note unfold = whileLoop_pass [OF nonempty True sel, of n]
      show ?thesis
      proof (cases "expandCurrent (n + 1) c s1")
        case None
        with unfold "1.prems" show ?thesis by simp
      next
        case (Some r)
        show ?thesis
        proof (cases r)
          case (Next s2)
          have "I s2" using pass [OF "1.prems"(2) nonempty True sel] Some Next by simp
          moreover have "whileLoop (n + 1) s2 = Some (e, t)"
            using unfold "1.prems"(1) Some Next by simp
          ultimately show ?thesis
            using "1.IH" [OF nonempty _ sel [symmetric] Some Next] True by simp
        next
          case (Exit e' t')
          with unfold "1.prems"(1) Some have "e' = e" "t' = t" by simp_all
          with leave [OF "1.prems"(2) nonempty True sel] Some Exit show ?thesis by simp
        qed
      qed
    qed
  qed
qed

lemma whileLoop_TypeError:
  assumes "whileLoop n s = Some (e, t)" "goalCell s \<noteq> None"
  shows "e \<noteq> TypeError"
proof (rule whileLoop_rule [OF assms(1), where I = "\<lambda>s. goalCell s \<noteq> None"
        and Q = "\<lambda>e t. e \<noteq> TypeError"])
  show "goalCell s \<noteq> None" by (rule assms(2))
next
  fix s c s1 k s2
  assume "goalCell s \<noteq> None" "selectCurrent s = (c, s1)" "expandCurrent k c s1 = Some (Next s2)"
  then show "goalCell s2 \<noteq> None"
    using expandCurrent_Next_goalCell [of k c s1 s2] selectCurrent_fields(5) [of s c s1] by simp
next
  fix s c s1 k e t
  assume "goalCell s \<noteq> None" "selectCurrent s = (c, s1)" "expandCurrent k c s1 = Some (Exit e t)"
  then show "e \<noteq> TypeError"
    using expandCurrent_TypeError [of k c s1 t] selectCurrent_fields(5) [of s c s1] by auto
qed simp_all

lemma beginSimulation_Done_goalCell:
  "beginSimulation s = Done s0 \<Longrightarrow> goalCell s0 = goalCell s \<and> goalCell s \<noteq> None"
  by (auto simp: beginSimulation_def Let_def split: option.splits)

lemma beginSimulation_Throws:
  "beginSimulation s = Throws s0 \<Longrightarrow> startCell s = None \<or> goalCell s = None"
  by (auto simp: beginSimulation_def Let_def split: option.splits)

text \<open>
  Claim C9, as amended. startSimulation has no error values. Called while a run is in
  progress, it returns at once and leaves every field of the state as it was; called with
  a start and a goal cell, it never throws.
\<close>

theorem start_noop_and_no_fault:
  "(isSimulationRunning s \<longrightarrow> startSimulation s = Some (AlreadyRunning, s))
   \<and> (startCell s \<noteq> None \<and> goalCell s \<noteq> None \<longrightarrow> (\<forall>t. startSimulation s \<noteq> Some (TypeError, t)))"
proof (intro conjI impI allI)
  assume "isSimulationRunning s"
  then show "startSimulation s = Some (AlreadyRunning, s)"
    by (simp add: startSimulation_def)
next
  fix t
  assume ends: "startCell s \<noteq> None \<and> goalCell s \<noteq> None"
  show "startSimulation s \<noteq> Some (TypeError, t)"
  proof
    assume thrown: "startSimulation s = Some (TypeError, t)"
    then have idle: "\<not> isSimulationRunning s"
      by (auto simp: startSimulation_def split: if_splits)
    show False
    proof (cases "beginSimulation s")
      case (Throws s0)
      show False using ends beginSimulation_Throws [OF Throws] by auto
    next
      case (Done s0)
      then have "goalCell s0 \<noteq> None"
        using beginSimulation_Done_goalCell by metis
      with thrown idle Done whileLoop_TypeError [of 0 s0] show False
        by (auto simp: startSimulation_def split: option.splits if_splits)
    qed
  qed
qed

theorem start_noop_and_no_fault_witness:
  "isSimulationRunning ((setupState 3 3 (0, 0) (2, 2))\<lparr>isSimulationRunning := True\<rparr>)
   \<and> startSimulation ((setupState 3 3 (0, 0) (2, 2))\<lparr>isSimulationRunning := True\<rparr>)
       = Some (AlreadyRunning, (setupState 3 3 (0, 0) (2, 2))\<lparr>isSimulationRunning := True\<rparr>)
   \<and> startCell (setupState 3 3 (0, 0) (2, 2)) \<noteq> None
   \<and> goalCell (setupState 3 3 (0, 0) (2, 2)) \<noteq> None
   \<and> (\<forall>t. startSimulation (setupState 3 3 (0, 0) (2, 2)) \<noteq> Some (TypeError, t))"
  using start_noop_and_no_fault [of "(setupState 3 3 (0, 0) (2, 2))\<lparr>isSimulationRunning := True\<rparr>"]
    start_noop_and_no_fault [of "setupState 3 3 (0, 0) (2, 2)"]
  by (simp add: setupState_def)

text \<open>
  The claim as the specification has it fails: with no start cell the call throws a
  TypeError, and by then it has set the running flag.
\<close>

theorem start_missing_endpoint_counterexample:
  "startSimulation ((setupState 3 3 (0, 0) (2, 2))\<lparr>startCell := None\<rparr>)
     = Some (TypeError, (setupState 3 3 (0, 0) (2, 2))\<lparr>startCell := None, isSimulationRunning := True\<rparr>)
   \<and> isSimulationRunning ((setupState 3 3 (0, 0) (2, 2))\<lparr>startCell := None, isSimulationRunning := True\<rparr>)
     \<noteq> isSimulationRunning ((setupState 3 3 (0, 0) (2, 2))\<lparr>startCell := None\<rparr>)"
  by (simp add: startSimulation_def beginSimulation_def setupState_def resetCells_def
      freshCell_def Let_def fun_eq_iff)

section \<open>The choice of the current cell\<close>

text \<open>The scan returns the first position of the least \<open>f\<close>.\<close>

lemma scan_first_min:
  assumes "xs = pre @ cs" "length pre = i" "k0 < i" "xs ! k0 = c0"
    and "\<forall>j<i. f (gr c0) \<le> f (gr (xs ! j))"
    and "\<forall>j<k0. f (gr c0) < f (gr (xs ! j))"
    and "scan gr cs i (c0, k0) = (c, k)"
  shows "k < length xs \<and> xs ! k = c
       \<and> (\<forall>j<length xs. f (gr c) \<le> f (gr (xs ! j)))
       \<and> (\<forall>j<k. f (gr c) < f (gr (xs ! j)))"
  using assms
proof (induction cs arbitrary: pre i k0 c0)
  case Nil
  then show ?case by auto
next
  case (Cons d ds)
  have xs: "xs = (pre @ [d]) @ ds" "length (pre @ [d]) = i + 1"
    using Cons.prems(1,2) by simp_all
  have d: "xs ! i = d" using Cons.prems(1,2) by (simp add: nth_append)
  show ?case
  proof (cases "f (gr d) < f (gr c0)")
    case True
    then have sc: "scan gr ds (i + 1) (d, i) = (c, k)" using Cons.prems(7) by simp
    have le: "\<forall>j<i + 1. f (gr d) \<le> f (gr (xs ! j))"
    proof (intro allI impI)
      fix j assume "j < i + 1"
      then consider "j < i" | "j = i" by linarith
      then show "f (gr d) \<le> f (gr (xs ! j))"
      proof cases
        case 1
        with Cons.prems(5) have "f (gr c0) \<le> f (gr (xs ! j))" by simp
        with True show ?thesis by simp
      next
        case 2
        with d show ?thesis by simp
      qed
    qed
    have lt: "\<forall>j<i. f (gr d) < f (gr (xs ! j))"
    proof (intro allI impI)
      fix j assume "j < i"
      with Cons.prems(5) have "f (gr c0) \<le> f (gr (xs ! j))" by simp
      with True show "f (gr d) < f (gr (xs ! j))" by simp
    qed
    show ?thesis
      by (rule Cons.IH [OF xs _ d le lt sc]) simp
  next
    case False
    then have sc: "scan gr ds (i + 1) (c0, k0) = (c, k)" using Cons.prems(7) by simp
    have le: "\<forall>j<i + 1. f (gr c0) \<le> f (gr (xs ! j))"
    proof (intro allI impI)
      fix j assume "j < i + 1"
      then consider "j < i" | "j = i" by linarith
      then show "f (gr c0) \<le> f (gr (xs ! j))"
      proof cases
        case 1
        with Cons.prems(5) show ?thesis by simp
      next
        case 2
        with d False show ?thesis by simp
      qed
    qed
    show ?thesis
      by (rule Cons.IH [OF xs _ Cons.prems(4) le Cons.prems(6) sc]) (use Cons.prems(3) in simp)
  qed
qed

lemma selectCurrent_first_min:
  assumes "openList s \<noteq> []" "selectCurrent s = (c, s1)"
  shows "\<exists>k<length (openList s). openList s ! k = c
       \<and> (\<forall>j<length (openList s). f (grid s c) \<le> f (grid s (openList s ! j)))
       \<and> (\<forall>j<k. f (grid s c) < f (grid s (openList s ! j)))
       \<and> openList s1 = take k (openList s) @ drop (Suc k) (openList s)"
proof -
  obtain d ds where ol: "openList s = d # ds" using assms(1) by (cases "openList s") auto
  obtain c' k where sc: "scan (grid s) ds 1 (d, 0) = (c', k)"
    by (cases "scan (grid s) ds 1 (d, 0)")
  have res: "c' = c" "s1 = s\<lparr>openList := splice1 k (openList s), closedList := closedList s @ [c]\<rparr>"
    using assms(2) sc ol by (auto simp: selectCurrent_def)
  have "k < length (openList s) \<and> openList s ! k = c'
       \<and> (\<forall>j<length (openList s). f (grid s c') \<le> f (grid s (openList s ! j)))
       \<and> (\<forall>j<k. f (grid s c') < f (grid s (openList s ! j)))"
    using scan_first_min [of "openList s" "[d]" ds 1 0 d "grid s" c' k] ol sc by simp
  with res show ?thesis by (auto simp: splice1_def)
qed

lemma forEachNeighbor_openList:
  "forEachNeighbor cur ns s = Done s' \<Longrightarrow> \<exists>new. openList s' = openList s @ new \<and> set new \<subseteq> set ns"
proof (induction ns arbitrary: s)
  case Nil
  then show ?case by simp
next
  case (Cons n ns)
  from Cons.prems obtain s1 where v: "visit cur n s = Done s1"
    and r: "forEachNeighbor cur ns s1 = Done s'"
    by (auto split: completion.splits)
  from Cons.IH [OF r] obtain new where "openList s' = openList s1 @ new" "set new \<subseteq> set ns"
    by blast
  with visit_openList [OF v] show ?case by auto
qed

lemma expandCurrent_Next_forEach:
  "expandCurrent n c s = Some (Next s') \<Longrightarrow>
   Some c \<noteq> goalCell s \<and> forEachNeighbor c (addNeighbors s c) s = Done s' \<and> n \<le> iterationCap"
  by (auto simp: expandCurrent_def split: if_splits option.splits completion.splits)

text \<open>
  Claim C2. Whatever the state, the pass takes out of the open list a cell of least
  \<open>f\<close>, and among the cells of least \<open>f\<close> the first in the list. The list is in
  insertion order: the splice keeps the order of the cells that stay, and the rest of the
  pass only appends.
\<close>

theorem current_is_first_minimum:
  assumes "openList s \<noteq> []" and "selectCurrent s = (c, s1)"
  shows "\<exists>k<length (openList s). openList s ! k = c
       \<and> (\<forall>j<length (openList s). f (grid s c) \<le> f (grid s (openList s ! j)))
       \<and> (\<forall>j<k. f (grid s c) < f (grid s (openList s ! j)))
       \<and> openList s1 = take k (openList s) @ drop (Suc k) (openList s)
       \<and> (\<forall>n s2. expandCurrent n c s1 = Some (Next s2) \<longrightarrow>
             (\<exists>new. openList s2 = openList s1 @ new))"
proof -
  have "\<exists>new. openList s2 = openList s1 @ new" if "expandCurrent n c s1 = Some (Next s2)" for n s2
    using expandCurrent_Next_forEach [OF that] forEachNeighbor_openList by blast
  with selectCurrent_first_min [OF assms] show ?thesis by blast
qed

theorem current_is_first_minimum_witness:
  "openList ((setupState 3 3 (0, 0) (2, 2))\<lparr>openList := [(0, 0), (1, 0), (0, 1)]\<rparr>) \<noteq> []
   \<and> selectCurrent ((setupState 3 3 (0, 0) (2, 2))\<lparr>openList := [(0, 0), (1, 0), (0, 1)]\<rparr>)
       = ((0, 0), (setupState 3 3 (0, 0) (2, 2))\<lparr>openList := [(1, 0), (0, 1)], closedList := [(0, 0)]\<rparr>)
   \<and> (\<exists>k<length [(0, 0), (1, 0), (0, 1 :: int)]. [(0, 0), (1, 0), (0, 1)] ! k = (0 :: int, 0 :: int))"
proof -
  let ?s = "(setupState 3 3 (0, 0) (2, 2))\<lparr>openList := [(0, 0), (1, 0), (0, 1)]\<rparr>"
  let ?s1 = "(setupState 3 3 (0, 0) (2, 2))\<lparr>openList := [(1, 0), (0, 1)], closedList := [(0, 0)]\<rparr>"
  have h1: "openList ?s \<noteq> []" by (simp add: setupState_def)
  have h2: "selectCurrent ?s = ((0, 0), ?s1)"
    by (simp add: selectCurrent_def setupState_def splice1_def freshCell_def)
  from current_is_first_minimum [OF h1 h2] h1 h2 show ?thesis
    by (auto simp: setupState_def)
qed

section \<open>The neighbours of the current cell\<close>

lemma addNeighbors_distinct: "distinct (addNeighbors s c)"
  by (cases c) (auto simp: addNeighbors_def)

lemma addNeighbors_irrefl: "c \<notin> set (addNeighbors s c)"
  by (cases c) (auto simp: addNeighbors_def)

text \<open>The visits to the other neighbours leave a cell, and its place in the lists, alone.\<close>

lemma forEachNeighbor_other:
  assumes "forEachNeighbor cur ns s = Done s'" "p \<notin> set ns"
  shows "grid s' p = grid s p \<and> (p \<in> set (openList s') \<longleftrightarrow> p \<in> set (openList s))"
  using assms
proof (induction ns arbitrary: s)
  case Nil
  then show ?case by simp
next
  case (Cons n ns)
  from Cons.prems obtain s1 where v: "visit cur n s = Done s1"
    and r: "forEachNeighbor cur ns s1 = Done s'"
    by (auto split: completion.splits)
  have "p \<noteq> n" "p \<notin> set ns" using Cons.prems(2) by auto
  with Cons.IH [OF r] visit_grid_other [OF v, of p] visit_openList [OF v]
  show ?case by auto
qed

lemma forEachNeighbor_closedList:
  "forEachNeighbor cur ns s = Done s' \<Longrightarrow> closedList s' = closedList s"
proof (induction ns arbitrary: s)
  case Nil
  then show ?case by simp
next
  case (Cons n ns)
  then show ?case by (auto split: completion.splits dest: visit_frame(5))
qed

lemma visit_neighborOutcome:
  assumes "goalCell s = Some gl" "visit cur n s = Done s'"
  shows "neighborOutcome cur gl n s s'"
  using assms(2) unfolding visit_Done [OF assms(1)] neighborOutcome_def
  by (auto simp: not_less)

lemma neighborOutcome_cong:
  assumes "neighborOutcome cur gl n s1 s'"
    and "grid s1 n = grid s n" "grid s1 cur = grid s cur"
    and "n \<in> set (openList s1) \<longleftrightarrow> n \<in> set (openList s)"
    and "closedList s1 = closedList s"
  shows "neighborOutcome cur gl n s s'"
  using assms unfolding neighborOutcome_def by simp

lemma neighborOutcome_later:
  assumes "neighborOutcome cur gl n s s1"
    and "grid s' n = grid s1 n" "n \<in> set (openList s') \<longleftrightarrow> n \<in> set (openList s1)"
  shows "neighborOutcome cur gl n s s'"
  using assms unfolding neighborOutcome_def by simp

lemma forEachNeighbor_neighborOutcome:
  assumes "forEachNeighbor cur ns s = Done s'" "goalCell s = Some gl"
    and "distinct ns" "cur \<notin> set ns" "n \<in> set ns"
  shows "neighborOutcome cur gl n s s'"
  using assms
proof (induction ns arbitrary: s)
  case Nil
  then show ?case by simp
next
  case (Cons m ms)
  from Cons.prems(1) obtain s1 where v: "visit cur m s = Done s1"
    and r: "forEachNeighbor cur ms s1 = Done s'"
    by (auto split: completion.splits)
  have g1: "goalCell s1 = Some gl" using visit_frame(4) [OF v] Cons.prems(2) by simp
  show ?case
  proof (cases "m = n")
    case True
    then have "n \<notin> set ms" using Cons.prems(3) by simp
    from forEachNeighbor_other [OF r this] visit_neighborOutcome [OF Cons.prems(2) v] True
    show ?thesis by (auto intro: neighborOutcome_later)
  next
    case False
    then have n: "n \<in> set ms" using Cons.prems(5) by simp
    have "cur \<noteq> m" using Cons.prems(4) by auto
    have ih: "neighborOutcome cur gl n s1 s'"
      by (rule Cons.IH [OF r g1 _ _ n]) (use Cons.prems(3,4) in simp_all)
    show ?thesis
    proof (rule neighborOutcome_cong [OF ih])
      show "grid s1 n = grid s n" using visit_grid_other [OF v] False by simp
      show "grid s1 cur = grid s cur" using visit_grid_other [OF v] \<open>cur \<noteq> m\<close> by simp
      show "n \<in> set (openList s1) \<longleftrightarrow> n \<in> set (openList s)"
        using visit_openList [OF v] False by auto
      show "closedList s1 = closedList s" by (rule visit_frame(5) [OF v])
    qed
  qed
qed

text \<open>
  Claim C3. In the expansion of a cell that is not the goal, each neighbour of the current
  cell ends as follows. An obstacle or a closed cell is left as it was. Any other
  neighbour that was not in the open list is in it now, with parent the current cell,
  \<open>g\<close> the current cell's \<open>g\<close> plus one, \<open>h\<close> its Manhattan distance to the goal
  and \<open>f = g + h\<close>. A neighbour that was in the open list gets these values when
  \<open>current.g + 1\<close> is less than its \<open>g\<close>, and is left as it was otherwise. The
  closed list does not change.
\<close>

theorem neighbors_relaxed:
  assumes "goalCell s = Some gl" and "cur \<noteq> gl" and "n \<in> set (addNeighbors s cur)"
  shows "\<exists>s'. expandCurrent k cur s = Some (if k > iterationCap then Exit CapExceeded s' else Next s')
       \<and> closedList s' = closedList s
       \<and> (if obstacle (grid s n) \<or> n \<in> set (closedList s)
            then grid s' n = grid s n \<and> (n \<in> set (openList s') \<longleftrightarrow> n \<in> set (openList s))
          else if n \<notin> set (openList s)
            then n \<in> set (openList s')
               \<and> grid s' n = (grid s n)\<lparr>parent := Some cur, g := g (grid s cur) + 1,
                    h := enat (manhattanDistance n gl),
                    f := g (grid s cur) + 1 + enat (manhattanDistance n gl)\<rparr>
          else if g (grid s cur) + 1 < g (grid s n)
            then n \<in> set (openList s')
               \<and> grid s' n = (grid s n)\<lparr>parent := Some cur, g := g (grid s cur) + 1,
                    h := enat (manhattanDistance n gl),
                    f := g (grid s cur) + 1 + enat (manhattanDistance n gl)\<rparr>
          else n \<in> set (openList s') \<and> grid s' n = grid s n)"
proof -
  obtain s' where fe: "forEachNeighbor cur (addNeighbors s cur) s = Done s'"
    using forEachNeighbor_total [OF assms(1)] by blast
  have "expandCurrent k cur s = Some (if k > iterationCap then Exit CapExceeded s' else Next s')"
    using assms(1,2) fe by (simp add: expandCurrent_def)
  moreover have "closedList s' = closedList s"
    by (rule forEachNeighbor_closedList [OF fe])
  moreover have "neighborOutcome cur gl n s s'"
    by (rule forEachNeighbor_neighborOutcome
          [OF fe assms(1) addNeighbors_distinct addNeighbors_irrefl assms(3)])
  ultimately show ?thesis
    unfolding neighborOutcome_def relaxed_def by (intro exI [of _ s']) simp
qed

theorem neighbors_relaxed_witness:
  "goalCell ((setupState 3 3 (0, 0) (2, 2))\<lparr>closedList := [(0, 0)]\<rparr>) = Some (2, 2)
   \<and> (0, 0) \<noteq> (2 :: int, 2 :: int)
   \<and> (1, 0) \<in> set (addNeighbors ((setupState 3 3 (0, 0) (2, 2))\<lparr>closedList := [(0, 0)]\<rparr>) (0, 0))
   \<and> (\<exists>s'. expandCurrent 1 (0, 0) ((setupState 3 3 (0, 0) (2, 2))\<lparr>closedList := [(0, 0)]\<rparr>) = Some (Next s')
        \<and> closedList s' = [(0, 0)]
        \<and> (1, 0) \<in> set (openList s')
        \<and> parent (grid s' (1, 0)) = Some (0, 0)
        \<and> h (grid s' (1, 0)) = 3)"
proof -
  let ?s = "(setupState 3 3 (0, 0) (2, 2))\<lparr>closedList := [(0, 0)]\<rparr>"
  have h1: "goalCell ?s = Some (2, 2)" by (simp add: setupState_def)
  have h2: "(0, 0) \<noteq> (2 :: int, 2 :: int)" by simp
  have h3: "(1, 0) \<in> set (addNeighbors ?s (0, 0))" by (simp add: setupState_def addNeighbors_def)
  from neighbors_relaxed [OF h1 h2 h3, of 1] h1 h3 show ?thesis
    by (auto simp: setupState_def freshCell_def iterationCap_def manhattanDistance_def
        numeral_eq_enat)
qed

section \<open>The iteration cap\<close>

lemma loopTrace_done:
  "openList s = [] \<or> \<not> isSimulationRunning s \<Longrightarrow> loopTrace n s = []"
  by (subst loopTrace.simps) simp

lemma loopTrace_pass:
  assumes "openList s \<noteq> []" "isSimulationRunning s" "selectCurrent s = (c, s1)"
  shows "loopTrace n s = (n + 1, sleep s1, c, s1) #
     (case expandCurrent (n + 1) c s1 of Some (Next s') \<Rightarrow> loopTrace (n + 1) s' | _ \<Rightarrow> [])"
  using assms by (subst loopTrace.simps) simp

lemma loopTrace_bound: "length (loopTrace n s) \<le> max 1 (Suc iterationCap - n)"
proof (induction n s rule: loopTrace.induct)
  case (1 n s)
  show ?case
  proof (cases "openList s = [] \<or> \<not> isSimulationRunning s")
    case True
    then show ?thesis by (simp add: loopTrace_done)
  next
    case False
    obtain c s1 where sel: "selectCurrent s = (c, s1)" by (cases "selectCurrent s")
    have unfold: "loopTrace n s = (n + 1, sleep s1, c, s1) #
       (case expandCurrent (n + 1) c s1 of Some (Next s') \<Rightarrow> loopTrace (n + 1) s' | _ \<Rightarrow> [])"
      using False by (intro loopTrace_pass [OF _ _ sel]) simp_all
    show ?thesis
    proof (cases "expandCurrent (n + 1) c s1")
      case None
      then show ?thesis using unfold by simp
    next
      case (Some r)
      show ?thesis
      proof (cases r)
        case (Next s')
        have "n + 1 \<le> iterationCap" using expandCurrent_Next_cap Some Next by blast
        moreover have "length (loopTrace (n + 1) s') \<le> max 1 (Suc iterationCap - (n + 1))"
          using "1.IH" [OF False sel [symmetric] Some Next] .
        ultimately show ?thesis using unfold Some Next by simp
      next
        case (Exit e t)
        then show ?thesis using unfold Some by simp
      qed
    qed
  qed
qed

lemma loopTrace_counters: "map fst (loopTrace n s) = map Suc [n..<n + length (loopTrace n s)]"
proof (induction n s rule: loopTrace.induct)
  case (1 n s)
  show ?case
  proof (cases "openList s = [] \<or> \<not> isSimulationRunning s")
    case True
    then show ?thesis by (simp add: loopTrace_done)
  next
    case False
    obtain c s1 where sel: "selectCurrent s = (c, s1)" by (cases "selectCurrent s")
    have unfold: "loopTrace n s = (n + 1, sleep s1, c, s1) #
       (case expandCurrent (n + 1) c s1 of Some (Next s') \<Rightarrow> loopTrace (n + 1) s' | _ \<Rightarrow> [])"
      using False by (intro loopTrace_pass [OF _ _ sel]) simp_all
    show ?thesis
    proof (cases "expandCurrent (n + 1) c s1")
      case None
      then show ?thesis using unfold by simp
    next
      case (Some r)
      show ?thesis
      proof (cases r)
        case (Next s')
        have "map fst (loopTrace (n + 1) s') = map Suc [n + 1..<n + 1 + length (loopTrace (n + 1) s')]"
          using "1.IH" [OF False sel [symmetric] Some Next] .
        moreover have "[n..<n + Suc (length (loopTrace (n + 1) s'))]
            = n # [n + 1..<n + 1 + length (loopTrace (n + 1) s')]"
          by (subst upt_conv_Cons) simp_all
        ultimately show ?thesis using unfold Some Next by simp
      next
        case (Exit e t)
        then show ?thesis using unfold Some by simp
      qed
    qed
  qed
qed

lemma forEachNeighbor_frame:
  assumes "forEachNeighbor cur ns s = Done s'"
  shows "cols s' = cols s \<and> rows s' = rows s \<and> startCell s' = startCell s
       \<and> goalCell s' = goalCell s \<and> closedList s' = closedList s \<and> finalPath s' = finalPath s
       \<and> isSimulationRunning s' = isSimulationRunning s \<and> delayEnabled s' = delayEnabled s"
  using assms
proof (induction ns arbitrary: s)
  case Nil
  then show ?case by simp
next
  case (Cons n ns)
  from Cons.prems obtain s1 where v: "visit cur n s = Done s1"
    and r: "forEachNeighbor cur ns s1 = Done s'"
    by (auto split: completion.splits)
  from Cons.IH [OF r] visit_frame [OF v] show ?case by simp
qed

lemma expandCurrent_forEach:
  assumes "expandCurrent k c s = Some r" "r = Next t \<or> r = Exit CapExceeded t"
  shows "forEachNeighbor c (addNeighbors s c) s = Done t"
  using assms
  by (auto simp: expandCurrent_def reconstructPath_def
      split: if_splits option.splits completion.splits)

lemma whileLoop_CapExceeded:
  assumes "whileLoop n s = Some (CapExceeded, t)"
  shows "finalPath t = finalPath s"
proof -
  have "CapExceeded = CapExceeded \<longrightarrow> finalPath t = finalPath s"
  proof (rule whileLoop_rule [OF assms, where I = "\<lambda>u. finalPath u = finalPath s"
        and Q = "\<lambda>e u. e = CapExceeded \<longrightarrow> finalPath u = finalPath s"])
    fix u c u1 k u2
    assume "finalPath u = finalPath s" "selectCurrent u = (c, u1)"
      "expandCurrent k c u1 = Some (Next u2)"
    then show "finalPath u2 = finalPath s"
      using forEachNeighbor_frame [OF expandCurrent_forEach [of k c u1 "Next u2" u2]]
        selectCurrent_fields(6) [of u c u1] by simp
  next
    fix u c u1 k e u2
    assume "finalPath u = finalPath s" "selectCurrent u = (c, u1)"
      "expandCurrent k c u1 = Some (Exit e u2)"
    then show "e = CapExceeded \<longrightarrow> finalPath u2 = finalPath s"
      using forEachNeighbor_frame [OF expandCurrent_forEach [of k c u1 "Exit e u2" u2]]
        selectCurrent_fields(6) [of u c u1] by simp
  qed simp_all
  then show ?thesis by simp
qed

lemma beginSimulation_Done_lists:
  "beginSimulation s = Done s0 \<Longrightarrow> finalPath s0 = [] \<and> closedList s0 = []
     \<and> openList s0 = [the (startCell s)] \<and> isSimulationRunning s0 \<and> startCell s0 = startCell s
     \<and> cols s0 = cols s \<and> rows s0 = rows s"
  by (auto simp: beginSimulation_def Let_def split: option.splits)

section \<open>The delay\<close>

lemma setDelay_fields [simp]:
  "cols (setDelay b s) = cols s"
  "rows (setDelay b s) = rows s"
  "grid (setDelay b s) = grid s"
  "startCell (setDelay b s) = startCell s"
  "goalCell (setDelay b s) = goalCell s"
  "openList (setDelay b s) = openList s"
  "closedList (setDelay b s) = closedList s"
  "finalPath (setDelay b s) = finalPath s"
  "isSimulationRunning (setDelay b s) = isSimulationRunning s"
  "delayEnabled (setDelay b s) = b"
  by (simp_all add: setDelay_def)

lemma setDelay_idem [simp]: "setDelay b (setDelay b' s) = setDelay b s"
  by (simp add: setDelay_def)

lemma searchState_setDelay [simp]: "searchState (setDelay b s) = searchState s"
  by (simp add: searchState_def)

lemma selectCurrent_setDelay:
  "selectCurrent (setDelay b s) = (fst (selectCurrent s), setDelay b (snd (selectCurrent s)))"
  by (simp add: selectCurrent_def setDelay_def split: prod.splits)

lemma updCell_setDelay: "updCell p u (setDelay b s) = setDelay b (updCell p u s)"
  by (simp add: updCell_def setDelay_def)

lemma relax_setDelay:
  "relax cur tg n (setDelay b s) = completionMap (setDelay b) (relax cur tg n s)"
  by (simp add: relax_def Let_def updCell_setDelay split: option.splits)

lemma visit_setDelay:
  "visit cur n (setDelay b s) = completionMap (setDelay b) (visit cur n s)"
proof -
  have "(setDelay b s)\<lparr>openList := xs\<rparr> = setDelay b (s\<lparr>openList := xs\<rparr>)" for xs
    by (simp add: setDelay_def)
  then show ?thesis
    by (simp add: visit_def Let_def relax_setDelay)
qed

lemma forEachNeighbor_setDelay:
  "forEachNeighbor cur ns (setDelay b s) = completionMap (setDelay b) (forEachNeighbor cur ns s)"
proof (induction ns arbitrary: s)
  case Nil
  then show ?case by simp
next
  case (Cons n ns)
  then show ?case
    by (cases "visit cur n s") (simp_all add: visit_setDelay)
qed

lemma addNeighbors_setDelay [simp]: "addNeighbors (setDelay b s) c = addNeighbors s c"
  by (simp add: addNeighbors_def)

lemma reconstructPath_setDelay:
  "reconstructPath c (setDelay b s) = map_option (setDelay b) (reconstructPath c s)"
  by (simp add: reconstructPath_def setDelay_def split: option.splits)

lemma expandCurrent_setDelay:
  "expandCurrent k c (setDelay b s) = map_option (progressMap (setDelay b)) (expandCurrent k c s)"
  by (simp add: expandCurrent_def reconstructPath_setDelay forEachNeighbor_setDelay
      split: option.splits completion.splits)

lemma whileLoop_setDelay:
  "whileLoop n (setDelay b s) = map_option (apsnd (setDelay b)) (whileLoop n s)"
proof (induction n s rule: whileLoop.induct)
  case (1 n s)
  show ?case
  proof (cases "openList s = []")
    case True
    then show ?thesis by (simp add: whileLoop_empty)
  next
    case nonempty: False
    show ?thesis
    proof (cases "isSimulationRunning s")
      case False
      with nonempty show ?thesis by (simp add: whileLoop_stopped)
    next
      case True
      obtain c s1 where sel: "selectCurrent s = (c, s1)" by (cases "selectCurrent s")
      then have sel': "selectCurrent (setDelay b s) = (c, setDelay b s1)"
        by (simp add: selectCurrent_setDelay)
      have l: "whileLoop n s =
         (case expandCurrent (n + 1) c s1 of None \<Rightarrow> None
          | Some (Exit e s') \<Rightarrow> Some (e, s')
          | Some (Next s') \<Rightarrow> whileLoop (n + 1) s')"
        by (rule whileLoop_pass [OF nonempty True sel])
      have r: "whileLoop n (setDelay b s) =
         (case expandCurrent (n + 1) c (setDelay b s1) of None \<Rightarrow> None
          | Some (Exit e s') \<Rightarrow> Some (e, s')
          | Some (Next s') \<Rightarrow> whileLoop (n + 1) s')"
        by (rule whileLoop_pass [OF _ _ sel']) (use nonempty True in simp_all)
      show ?thesis
      proof (cases "expandCurrent (n + 1) c s1")
        case None
        then show ?thesis using l r by (simp add: expandCurrent_setDelay)
      next
        case (Some p)
        show ?thesis
        proof (cases p)
          case (Next s2)
          have "whileLoop (n + 1) (setDelay b s2) = map_option (apsnd (setDelay b)) (whileLoop (n + 1) s2)"
            using "1.IH" [OF nonempty _ sel [symmetric] Some Next] True by simp
          then show ?thesis using l r Some Next by (simp add: expandCurrent_setDelay)
        next
          case (Exit e t)
          then show ?thesis using l r Some by (simp add: expandCurrent_setDelay)
        qed
      qed
    qed
  qed
qed

lemma sleep_setDelay: "sleep (setDelay b s) = (if b then Timeout else Resolved)"
  by (simp add: sleep_def)

lemma loopTrace_setDelay:
  "loopTrace n (setDelay b s) =
   map (\<lambda>(i, k, c, t). (i, if b then Timeout else Resolved, c, setDelay b t)) (loopTrace n s)"
proof (induction n s rule: loopTrace.induct)
  case (1 n s)
  show ?case
  proof (cases "openList s = [] \<or> \<not> isSimulationRunning s")
    case True
    then show ?thesis by (simp add: loopTrace_done)
  next
    case False
    obtain c s1 where sel: "selectCurrent s = (c, s1)" by (cases "selectCurrent s")
    then have sel': "selectCurrent (setDelay b s) = (c, setDelay b s1)"
      by (simp add: selectCurrent_setDelay)
    have l: "loopTrace n s = (n + 1, sleep s1, c, s1) #
       (case expandCurrent (n + 1) c s1 of Some (Next s') \<Rightarrow> loopTrace (n + 1) s' | _ \<Rightarrow> [])"
      using False by (intro loopTrace_pass [OF _ _ sel]) simp_all
    have r: "loopTrace n (setDelay b s) = (n + 1, sleep (setDelay b s1), c, setDelay b s1) #
       (case expandCurrent (n + 1) c (setDelay b s1) of
          Some (Next s') \<Rightarrow> loopTrace (n + 1) s' | _ \<Rightarrow> [])"
      using False by (intro loopTrace_pass [OF _ _ sel']) simp_all
    show ?thesis
    proof (cases "expandCurrent (n + 1) c s1")
      case None
      then show ?thesis using l r by (simp add: expandCurrent_setDelay sleep_setDelay)
    next
      case (Some p)
      show ?thesis
      proof (cases p)
        case (Next s2)
        have "loopTrace (n + 1) (setDelay b s2) =
            map (\<lambda>(i, k, c, t). (i, if b then Timeout else Resolved, c, setDelay b t))
              (loopTrace (n + 1) s2)"
          using "1.IH" [OF False sel [symmetric] Some Next] .
        then show ?thesis using l r Some Next
          by (simp add: expandCurrent_setDelay sleep_setDelay)
      next
        case (Exit e t)
        then show ?thesis using l r Some
          by (simp add: expandCurrent_setDelay sleep_setDelay)
      qed
    qed
  qed
qed

lemma in_grid_setDelay [simp]: "in_grid (setDelay b s) = in_grid s"
  by (rule in_grid_cong) simp_all

lemma beginSimulation_setDelay:
  "beginSimulation (setDelay b s) = completionMap (setDelay b) (beginSimulation s)"
proof -
  have "resetCells ((setDelay b s)\<lparr>isSimulationRunning := True\<rparr>)
      = setDelay b (resetCells (s\<lparr>isSimulationRunning := True\<rparr>))"
    by (simp add: resetCells_def setDelay_def in_grid_def cong: if_cong)
  moreover have "(setDelay b u)\<lparr>openList := xs, closedList := ys, finalPath := zs\<rparr>
      = setDelay b (u\<lparr>openList := xs, closedList := ys, finalPath := zs\<rparr>)" for u xs ys zs
    by (simp add: setDelay_def)
  moreover have "(setDelay b u)\<lparr>openList := xs\<rparr> = setDelay b (u\<lparr>openList := xs\<rparr>)" for u xs
    by (simp add: setDelay_def)
  ultimately show ?thesis
    by (simp add: beginSimulation_def Let_def updCell_setDelay split: option.splits)
qed

lemma startSimulation_setDelay:
  "startSimulation (setDelay b s) = map_option (apsnd (setDelay b)) (startSimulation s)"
proof -
  have "(setDelay b u)\<lparr>isSimulationRunning := False\<rparr> = setDelay b (u\<lparr>isSimulationRunning := False\<rparr>)" for u
    by (simp add: setDelay_def)
  then show ?thesis
    by (cases "beginSimulation s")
       (auto simp: startSimulation_def beginSimulation_setDelay whileLoop_setDelay
          split: option.splits)
qed

lemma startTrace_setDelay:
  "startTrace (setDelay b s) =
   map (\<lambda>(i, k, c, t). (i, if b then Timeout else Resolved, c, setDelay b t)) (startTrace s)"
  by (cases "beginSimulation s")
     (simp_all add: startTrace_def beginSimulation_setDelay loopTrace_setDelay)

text \<open>
  Claim C8. Two calls of startSimulation that differ only in the delay switch go through
  the same passes: the same counters, the same current cells and, at each \<open>await\<close>, the
  same open list, closed list, path and cells; and they end the same way with the same
  search state. Only what \<open>await\<close> waits on differs, a timer or a resolved promise.
\<close>

theorem delay_only_schedules:
  "map (\<lambda>(i, k, c, t). (i, c, searchState t)) (startTrace (s\<lparr>delayEnabled := True\<rparr>))
     = map (\<lambda>(i, k, c, t). (i, c, searchState t)) (startTrace (s\<lparr>delayEnabled := False\<rparr>))
   \<and> map_option (\<lambda>(e, t). (e, searchState t)) (startSimulation (s\<lparr>delayEnabled := True\<rparr>))
     = map_option (\<lambda>(e, t). (e, searchState t)) (startSimulation (s\<lparr>delayEnabled := False\<rparr>))
   \<and> map (\<lambda>(i, k, c, t). k) (startTrace (s\<lparr>delayEnabled := True\<rparr>))
     = replicate (length (startTrace (s\<lparr>delayEnabled := True\<rparr>))) Timeout
   \<and> map (\<lambda>(i, k, c, t). k) (startTrace (s\<lparr>delayEnabled := False\<rparr>))
     = replicate (length (startTrace (s\<lparr>delayEnabled := False\<rparr>))) Resolved"
proof -
  have t: "startTrace (s\<lparr>delayEnabled := b\<rparr>) =
      map (\<lambda>(i, k, c, t). (i, if b then Timeout else Resolved, c, setDelay b t)) (startTrace s)" for b
    using startTrace_setDelay [of b s] by (simp add: setDelay_def)
  have r: "startSimulation (s\<lparr>delayEnabled := b\<rparr>) = map_option (apsnd (setDelay b)) (startSimulation s)" for b
    using startSimulation_setDelay [of b s] by (simp add: setDelay_def)
  have 1: "map (\<lambda>(i, k, c, t). (i, c, searchState t)) (startTrace (s\<lparr>delayEnabled := b\<rparr>))
      = map (\<lambda>(i, k, c, t). (i, c, searchState t)) (startTrace s)" for b
    unfolding t by (simp add: split_def comp_def)
  have 2: "map_option (\<lambda>(e, t). (e, searchState t)) (startSimulation (s\<lparr>delayEnabled := b\<rparr>))
      = map_option (\<lambda>(e, t). (e, searchState t)) (startSimulation s)" for b
    unfolding r by (simp add: option.map_comp comp_def split_def)
  have 3: "map (\<lambda>(i, k, c, t). k) (startTrace (s\<lparr>delayEnabled := b\<rparr>))
      = replicate (length (startTrace (s\<lparr>delayEnabled := b\<rparr>))) (if b then Timeout else Resolved)" for b
    unfolding t by (simp add: split_def comp_def map_replicate_const)
  show ?thesis using 1 [of True] 1 [of False] 2 [of True] 2 [of False] 3 [of True] 3 [of False]
    by simp
qed

section \<open>An edit during a run\<close>

text \<open>
  Claim C7. An in-range edit made while a run is in progress stops the run and resets the
  search state, and no expansion takes effect after it. The code does the first and misses
  the second: the pass suspended at its \<open>await\<close> resumes after the edit and runs its
  second half on the reset state. On a 3 by 3 grid with start \<open>(0, 0)\<close> and goal
  \<open>(2, 2)\<close>, drawing an obstacle on \<open>(1, 1)\<close> during the first pass leaves the
  neighbours of the start cell in the open list, with the start cell as their parent and
  their \<open>h\<close> set.
\<close>

theorem edit_during_await_is_overwritten:
  "map_option (\<lambda>(e, t). (e, openList t, parent (grid t (1, 0)), h (grid t (1, 0))))
     (startSimulationWithEvent (handleMouseAction 1 1) (setupState 3 3 (0, 0) (2, 2)))
   = Some (Stopped, [(1, 0), (0, 1)], Some (0, 0), 3)"
  by code_simp

section \<open>The open and the closed list\<close>

lemma laterState_refl: "laterState s s"
  by (simp add: laterState_def)

lemma laterState_trans: "laterState s t \<Longrightarrow> laterState t u \<Longrightarrow> laterState s u"
  by (auto simp: laterState_def)

lemma selectCurrent_member:
  assumes "openList s \<noteq> []" "selectCurrent s = (c, s1)"
  shows "\<exists>k<length (openList s). openList s ! k = c
       \<and> openList s1 = take k (openList s) @ drop (Suc k) (openList s)"
  using selectCurrent_first_min [OF assms] by blast

lemma distinct_splice:
  assumes "distinct xs" "k < length xs"
  shows "distinct (take k xs @ drop (Suc k) xs)"
    and "set (take k xs @ drop (Suc k) xs) = set xs - {xs ! k}"
proof -
  have xs: "xs = take k xs @ (xs ! k) # drop (Suc k) xs"
    using assms(2) by (simp add: id_take_nth_drop)
  have d: "distinct (take k xs @ (xs ! k) # drop (Suc k) xs)"
    using assms(1) xs by simp
  then show "distinct (take k xs @ drop (Suc k) xs)" by simp
  have "set xs = set (take k xs @ (xs ! k) # drop (Suc k) xs)" using xs by simp
  also have "\<dots> = insert (xs ! k) (set (take k xs @ drop (Suc k) xs))" by simp
  finally have "set xs = insert (xs ! k) (set (take k xs @ drop (Suc k) xs))" .
  moreover have "xs ! k \<notin> set (take k xs @ drop (Suc k) xs)" using d by auto
  ultimately show "set (take k xs @ drop (Suc k) xs) = set xs - {xs ! k}" by auto
qed

lemma selectCurrent_open:
  assumes "openList s \<noteq> []" "selectCurrent s = (c, s1)" "distinct (openList s)"
  shows "c \<in> set (openList s)" "distinct (openList s1)" "set (openList s1) = set (openList s) - {c}"
proof -
  from selectCurrent_member [OF assms(1,2)] obtain k where
    k: "k < length (openList s)" "openList s ! k = c"
       "openList s1 = take k (openList s) @ drop (Suc k) (openList s)" by blast
  show "c \<in> set (openList s)" using k(1,2) nth_mem by blast
  show "distinct (openList s1)" using distinct_splice(1) [OF assms(3) k(1)] k(3) by simp
  show "set (openList s1) = set (openList s) - {c}"
    using distinct_splice(2) [OF assms(3) k(1)] k(2,3) by simp
qed

lemma selectCurrent_listsDisjoint:
  assumes "openList s \<noteq> []" "selectCurrent s = (c, s1)" "listsDisjoint s"
  shows "listsDisjoint s1"
proof -
  have d: "distinct (openList s)" using assms(3) by (simp add: listsDisjoint_def)
  note o = selectCurrent_open [OF assms(1,2) d]
  have "c \<notin> set (closedList s)" using o(1) assms(3) by (auto simp: listsDisjoint_def)
  with o assms(3) selectCurrent_fields(9) [OF assms(2)] show ?thesis
    by (auto simp: listsDisjoint_def)
qed

lemma selectCurrent_laterState: "selectCurrent s = (c, s1) \<Longrightarrow> laterState s s1"
  using selectCurrent_fields(3,9) [of s c s1] by (simp add: laterState_def)

lemma visit_listsDisjoint:
  assumes "visit cur n s = Done s'" "listsDisjoint s"
  shows "listsDisjoint s'"
proof (cases "goalCell s")
  case None
  then show ?thesis using assms
    by (auto simp: visit_def Let_def relax_Throws split: if_splits)
next
  case (Some gl)
  show ?thesis using assms unfolding visit_Done [OF Some]
    by (auto simp: listsDisjoint_def split: if_splits)
qed

lemma visit_closed_untouched:
  assumes "visit cur n s = Done s'" "c \<in> set (closedList s)"
  shows "grid s' c = grid s c"
proof (cases "c = n")
  case True
  then show ?thesis using assms by (simp add: visit_def)
next
  case False
  then show ?thesis using visit_grid_other [OF assms(1)] by simp
qed

lemma forEachNeighbor_listsDisjoint:
  "forEachNeighbor cur ns s = Done s' \<Longrightarrow> listsDisjoint s \<Longrightarrow> listsDisjoint s'"
proof (induction ns arbitrary: s)
  case Nil
  then show ?case by simp
next
  case (Cons n ns)
  from Cons.prems(1) obtain s1 where v: "visit cur n s = Done s1"
    and r: "forEachNeighbor cur ns s1 = Done s'"
    by (auto split: completion.splits)
  show ?case by (rule Cons.IH [OF r visit_listsDisjoint [OF v Cons.prems(2)]])
qed

lemma forEachNeighbor_closed_untouched:
  "forEachNeighbor cur ns s = Done s' \<Longrightarrow> c \<in> set (closedList s) \<Longrightarrow> grid s' c = grid s c"
proof (induction ns arbitrary: s)
  case Nil
  then show ?case by simp
next
  case (Cons n ns)
  from Cons.prems(1) obtain s1 where v: "visit cur n s = Done s1"
    and r: "forEachNeighbor cur ns s1 = Done s'"
    by (auto split: completion.splits)
  have "c \<in> set (closedList s1)" using visit_frame(5) [OF v] Cons.prems(2) by simp
  from Cons.IH [OF r this] visit_closed_untouched [OF v Cons.prems(2)] show ?case by simp
qed

lemma forEachNeighbor_laterState:
  "forEachNeighbor cur ns s = Done s' \<Longrightarrow> laterState s s'"
  using forEachNeighbor_closedList [of cur ns s s'] forEachNeighbor_closed_untouched [of cur ns s s']
  by (simp add: laterState_def)

text \<open>What a pass that does not throw does to the lists and to the closed cells.\<close>

lemma expandCurrent_cases:
  assumes "expandCurrent k c s = Some r" "goalCell s \<noteq> None"
  obtains (goal) t where "Some c = goalCell s" "reconstructPath c s = Some t" "r = Exit GoalFound t"
  | (cap) t where "Some c \<noteq> goalCell s" "forEachNeighbor c (addNeighbors s c) s = Done t"
      "k > iterationCap" "r = Exit CapExceeded t"
  | (continue) t where "Some c \<noteq> goalCell s" "forEachNeighbor c (addNeighbors s c) s = Done t"
      "k \<le> iterationCap" "r = Next t"
proof (cases "Some c = goalCell s")
  case True
  with assms goal show ?thesis
    by (auto simp: expandCurrent_def split: option.splits)
next
  case False
  from assms(2) obtain gl where "goalCell s = Some gl" by auto
  from forEachNeighbor_total [OF this, of c "addNeighbors s c"] obtain t where
    "forEachNeighbor c (addNeighbors s c) s = Done t" by blast
  with False assms cap continue show ?thesis
    by (cases "k > iterationCap") (auto simp: expandCurrent_def)
qed

lemma expandCurrent_result_state:
  assumes "expandCurrent k c s = Some r" "goalCell s \<noteq> None" "r = Next t \<or> r = Exit e t"
  shows "laterState s t" "listsDisjoint s \<Longrightarrow> listsDisjoint t" "goalCell t = goalCell s"
proof -
  have "laterState s t \<and> (listsDisjoint s \<longrightarrow> listsDisjoint t) \<and> goalCell t = goalCell s"
    using assms(1,2)
  proof (cases rule: expandCurrent_cases)
    case (goal u)
    then show ?thesis using assms(3) reconstructPath_fields [of c s u]
      by (auto simp: laterState_def listsDisjoint_def)
  next
    case (cap u)
    then show ?thesis using assms(3) forEachNeighbor_laterState forEachNeighbor_listsDisjoint
        forEachNeighbor_goalCell by auto
  next
    case (continue u)
    then show ?thesis using assms(3) forEachNeighbor_laterState forEachNeighbor_listsDisjoint
        forEachNeighbor_goalCell by auto
  qed
  then show "laterState s t" "listsDisjoint s \<Longrightarrow> listsDisjoint t" "goalCell t = goalCell s"
    by simp_all
qed

lemma loopStates_done:
  "openList s = [] \<or> \<not> isSimulationRunning s \<Longrightarrow> loopStates n s = [s]"
  by (subst loopStates.simps) simp

lemma loopStates_pass:
  assumes "\<not> (openList s = [] \<or> \<not> isSimulationRunning s)" "selectCurrent s = (c, s1)"
  shows "loopStates n s = s # s1 #
     (case expandCurrent (n + 1) c s1 of None \<Rightarrow> []
      | Some (Exit e s') \<Rightarrow> [s']
      | Some (Next s') \<Rightarrow> loopStates (n + 1) s')"
  using assms by (subst loopStates.simps) simp

lemma loopStates_invariant:
  "runInvariant s \<Longrightarrow> \<forall>t\<in>set (loopStates n s). listsDisjoint t \<and> laterState s t"
proof (induction n s rule: loopStates.induct)
  case (1 n s)
  show ?case
  proof (cases "openList s = [] \<or> \<not> isSimulationRunning s")
    case True
    then show ?thesis using "1.prems"
      by (simp add: loopStates_done runInvariant_def laterState_refl)
  next
    case False
    obtain c s1 where sel: "selectCurrent s = (c, s1)" by (cases "selectCurrent s")
    note unfold = loopStates_pass [OF False sel, of n]
    have s: "listsDisjoint s" "goalCell s \<noteq> None" using "1.prems" by (simp_all add: runInvariant_def)
    have s1: "listsDisjoint s1" "laterState s s1" "goalCell s1 \<noteq> None"
      using selectCurrent_listsDisjoint [OF _ sel s(1)] selectCurrent_laterState [OF sel]
        selectCurrent_fields(5) [OF sel] s(2) False by simp_all
    show ?thesis
    proof (cases "expandCurrent (n + 1) c s1")
      case None
      then show ?thesis using unfold s s1 by (simp add: laterState_refl)
    next
      case (Some r)
      show ?thesis
      proof (cases r)
        case (Next s2)
        note st = expandCurrent_result_state [OF Some s1(3), of s2]
        have s2: "listsDisjoint s2" "laterState s1 s2" "goalCell s2 \<noteq> None"
          using st s1 Next by simp_all
        then have "runInvariant s2" by (simp add: runInvariant_def)
        from "1.IH" [OF False sel [symmetric] Some Next this]
        have "\<forall>t\<in>set (loopStates (n + 1) s2). listsDisjoint t \<and> laterState s2 t" .
        moreover have "laterState s s2" using laterState_trans [OF s1(2) s2(2)] .
        ultimately show ?thesis using unfold Some Next s s1
          by (auto simp: laterState_refl intro: laterState_trans)
      next
        case (Exit e u)
        note st = expandCurrent_result_state [OF Some s1(3), of u e]
        have u: "listsDisjoint u" "laterState s1 u" using st s1 Exit by simp_all
        then show ?thesis using unfold Some Exit s s1
          by (auto simp: laterState_refl intro: laterState_trans)
      qed
    qed
  qed
qed

lemma loopStates_runInvariant_step:
  assumes "runInvariant s" "\<not> (openList s = [] \<or> \<not> isSimulationRunning s)"
    "selectCurrent s = (c, s1)"
  shows "runInvariant s1"
    and "expandCurrent k c s1 = Some (Next s2) \<Longrightarrow> runInvariant s2"
proof -
  have s: "listsDisjoint s" "goalCell s \<noteq> None" using assms(1) by (simp_all add: runInvariant_def)
  have s1: "listsDisjoint s1" "goalCell s1 \<noteq> None"
    using selectCurrent_listsDisjoint [OF _ assms(3) s(1)] selectCurrent_fields(5) [OF assms(3)]
      s(2) assms(2) by simp_all
  then show "runInvariant s1" by (simp add: runInvariant_def)
  assume e: "expandCurrent k c s1 = Some (Next s2)"
  from expandCurrent_result_state(2,3) [OF e s1(2), of s2] s1 show "runInvariant s2"
    by (simp add: runInvariant_def)
qed

lemma loopStates_sorted:
  "runInvariant s \<Longrightarrow> sorted_wrt laterState (loopStates n s)"
proof (induction n s rule: loopStates.induct)
  case (1 n s)
  show ?case
  proof (cases "openList s = [] \<or> \<not> isSimulationRunning s")
    case True
    then show ?thesis by (simp add: loopStates_done)
  next
    case False
    obtain c s1 where sel: "selectCurrent s = (c, s1)" by (cases "selectCurrent s")
    note unfold = loopStates_pass [OF False sel, of n]
    have from_s: "\<forall>t\<in>set (loopStates n s). laterState s t"
      using loopStates_invariant [OF "1.prems"] by simp
    have inv1: "runInvariant s1" by (rule loopStates_runInvariant_step(1) [OF "1.prems" False sel])
    then have g1: "goalCell s1 \<noteq> None" by (simp add: runInvariant_def)
    show ?thesis
    proof (cases "expandCurrent (n + 1) c s1")
      case None
      then show ?thesis using unfold from_s by simp
    next
      case (Some r)
      show ?thesis
      proof (cases r)
        case (Next s2)
        have inv2: "runInvariant s2"
          using loopStates_runInvariant_step(2) [OF "1.prems" False sel] Some Next by simp
        have "sorted_wrt laterState (loopStates (n + 1) s2)"
          by (rule "1.IH" [OF False sel [symmetric] Some Next inv2])
        moreover have "\<forall>t\<in>set (loopStates (n + 1) s2). laterState s2 t"
          using loopStates_invariant [OF inv2] by simp
        moreover have "laterState s1 s2"
          using expandCurrent_result_state(1) [OF Some g1, of s2] Next by simp
        ultimately show ?thesis using unfold Some Next from_s
          by (auto intro: laterState_trans)
      next
        case (Exit e u)
        have "laterState s1 u"
          using expandCurrent_result_state(1) [OF Some g1, of u e] Exit by simp
        then show ?thesis using unfold Some Exit from_s by simp
      qed
    qed
  qed
qed

lemma beginSimulation_runInvariant:
  "beginSimulation s = Done s0 \<Longrightarrow> runInvariant s0"
  using beginSimulation_Done_lists [of s s0] beginSimulation_Done_goalCell [of s s0]
  by (simp add: runInvariant_def listsDisjoint_def)

text \<open>The last of the states is the state the loop returns.\<close>

lemma whileLoop_last_state:
  "whileLoop n s = Some (e, t) \<Longrightarrow> last (loopStates n s) = t"
proof (induction n s rule: whileLoop.induct)
  case (1 n s)
  show ?case
  proof (cases "openList s = [] \<or> \<not> isSimulationRunning s")
    case True
    then show ?thesis using "1.prems"
      by (cases "openList s = []") (auto simp: loopStates_done whileLoop_empty whileLoop_stopped)
  next
    case False
    obtain c s1 where sel: "selectCurrent s = (c, s1)" by (cases "selectCurrent s")
    note unfold = loopStates_pass [OF False sel, of n]
    have w: "whileLoop n s =
       (case expandCurrent (n + 1) c s1 of None \<Rightarrow> None
        | Some (Exit e s') \<Rightarrow> Some (e, s')
        | Some (Next s') \<Rightarrow> whileLoop (n + 1) s')"
      using False by (intro whileLoop_pass [OF _ _ sel]) simp_all
    show ?thesis
    proof (cases "expandCurrent (n + 1) c s1")
      case None
      then show ?thesis using w "1.prems" by simp
    next
      case (Some r)
      show ?thesis
      proof (cases r)
        case (Next s2)
        have "whileLoop (n + 1) s2 = Some (e, t)" using w "1.prems" Some Next by simp
        moreover have "openList s \<noteq> []" "\<not> \<not> isSimulationRunning s" using False by simp_all
        ultimately have "last (loopStates (n + 1) s2) = t"
          using "1.IH" [OF _ _ sel [symmetric] Some Next] by simp
        moreover have "loopStates (n + 1) s2 \<noteq> []"
          by (subst loopStates.simps) (simp split: prod.splits)
        ultimately show ?thesis using unfold Some Next by simp
      next
        case (Exit e' u)
        then show ?thesis using unfold w "1.prems" Some by simp
      qed
    qed
  qed
qed

lemma startStates_cases:
  "startStates s = [] \<or> (\<exists>s0. runInvariant s0 \<and> startStates s = loopStates 0 s0)"
  using beginSimulation_runInvariant [of s]
  by (cases "beginSimulation s") (auto simp: startStates_def)

text \<open>
  Claim C4. In every state of a run, at a loop head, at an \<open>await\<close> or at the end, the
  open and the closed list hold no cell twice and have no cell in common. From any state
  of the run to any later one the closed list only grows at its end, so a cell enters it
  once; a cell that is closed is not in the open list of any later state, and its
  \<open>g\<close> is the same in every later state.
\<close>

theorem closed_cells_stay_closed:
  "(\<forall>t\<in>set (startStates s). distinct (openList t) \<and> distinct (closedList t)
        \<and> set (openList t) \<inter> set (closedList t) = {})
   \<and> (\<forall>i j. i \<le> j \<and> j < length (startStates s) \<longrightarrow>
        (\<exists>ys. closedList (startStates s ! j) = closedList (startStates s ! i) @ ys)
        \<and> (\<forall>c\<in>set (closedList (startStates s ! i)).
              c \<notin> set (openList (startStates s ! j))
              \<and> g (grid (startStates s ! j) c) = g (grid (startStates s ! i) c)))"
proof (cases "startStates s = []")
  case True
  then show ?thesis by simp
next
  case False
  then obtain s0 where inv: "runInvariant s0" and st: "startStates s = loopStates 0 s0"
    using startStates_cases [of s] by auto
  have each: "\<forall>t\<in>set (startStates s). listsDisjoint t"
    using loopStates_invariant [OF inv, of 0] st by simp
  have pairs: "laterState (startStates s ! i) (startStates s ! j)"
    if "i \<le> j" "j < length (startStates s)" for i j
  proof (cases "i = j")
    case True
    then show ?thesis by (simp add: laterState_refl)
  next
    case False
    with that have "i < j" by simp
    with loopStates_sorted [OF inv, of 0] st that(2) show ?thesis
      by (simp add: sorted_wrt_iff_nth_less)
  qed
  show ?thesis
  proof (intro conjI allI impI ballI)
    fix t assume "t \<in> set (startStates s)"
    with each have "listsDisjoint t" by simp
    then show "distinct (openList t)" "distinct (closedList t)"
      "set (openList t) \<inter> set (closedList t) = {}"
      by (simp_all add: listsDisjoint_def)
  next
    fix i j assume ij: "i \<le> j \<and> j < length (startStates s)"
    then have l: "laterState (startStates s ! i) (startStates s ! j)" using pairs by simp
    then show "\<exists>ys. closedList (startStates s ! j) = closedList (startStates s ! i) @ ys"
      by (simp add: laterState_def)
    fix c assume c: "c \<in> set (closedList (startStates s ! i))"
    with l show "g (grid (startStates s ! j) c) = g (grid (startStates s ! i) c)"
      by (simp add: laterState_def)
    have "startStates s ! j \<in> set (startStates s)" using ij by simp
    with each have "listsDisjoint (startStates s ! j)" by simp
    moreover have "c \<in> set (closedList (startStates s ! j))"
      using l c by (auto simp: laterState_def)
    ultimately show "c \<notin> set (openList (startStates s ! j))"
      by (auto simp: listsDisjoint_def)
  qed
qed

theorem closed_cells_stay_closed_witness:
  "(1 :: nat) \<le> 2 \<and> 2 < length (startStates (setupState 2 2 (0, 0) (1, 1)))
   \<and> (\<exists>ys. closedList (startStates (setupState 2 2 (0, 0) (1, 1)) ! 2)
          = closedList (startStates (setupState 2 2 (0, 0) (1, 1)) ! 1) @ ys)
   \<and> (0, 0) \<in> set (closedList (startStates (setupState 2 2 (0, 0) (1, 1)) ! 1))
   \<and> (0, 0) \<notin> set (openList (startStates (setupState 2 2 (0, 0) (1, 1)) ! 2))"
proof -
  let ?L = "startStates (setupState 2 2 (0, 0) (1, 1))"
  have len: "2 < length ?L" by code_simp
  have mem: "(0, 0) \<in> set (closedList (?L ! 1))" by code_simp
  from closed_cells_stay_closed [of "setupState 2 2 (0, 0) (1, 1)"] len
  have "(\<exists>ys. closedList (?L ! 2) = closedList (?L ! 1) @ ys)
      \<and> (\<forall>c\<in>set (closedList (?L ! 1)). c \<notin> set (openList (?L ! 2))
            \<and> g (grid (?L ! 2) c) = g (grid (?L ! 1) c))"
    by (metis one_le_numeral)
  with len mem show ?thesis by auto
qed

section \<open>The search tree and the path\<close>

text \<open>The ways a visit that returns ends.\<close>

lemma visit_Done_cases:
  assumes "visit cur n s = Done s'"
  obtains (skip) "s' = s"
  | (push) gl where "goalCell s = Some gl" "\<not> obstacle (grid s n)" "n \<notin> set (closedList s)"
      "n \<notin> set (openList s)"
      "s' = updCell n (relaxed cur (g (grid s cur) + 1) n gl) (s\<lparr>openList := openList s @ [n]\<rparr>)"
  | (improve) gl where "goalCell s = Some gl" "\<not> obstacle (grid s n)" "n \<notin> set (closedList s)"
      "n \<in> set (openList s)" "g (grid s cur) + 1 < g (grid s n)"
      "s' = updCell n (relaxed cur (g (grid s cur) + 1) n gl) s"
proof (cases "goalCell s")
  case None
  then have "s' = s" using assms
    by (auto simp: visit_def Let_def relax_Throws split: if_splits)
  then show ?thesis by (rule skip)
next
  case (Some gl)
  note vd = assms [unfolded visit_Done [OF Some]]
  show ?thesis
  proof (cases "obstacle (grid s n) \<or> n \<in> set (closedList s)")
    case True
    then have "s' = s" using vd by simp
    then show ?thesis by (rule skip)
  next
    case nskip: False
    show ?thesis
    proof (cases "n \<in> set (openList s)")
      case False
      then show ?thesis using vd nskip by (intro push [OF Some]) simp_all
    next
      case True
      show ?thesis
      proof (cases "g (grid s cur) + 1 < g (grid s n)")
        case True
        then show ?thesis using vd nskip \<open>n \<in> set (openList s)\<close>
          by (intro improve [OF Some]) (simp_all add: not_le [symmetric])
      next
        case False
        then have "s' = s" using vd nskip \<open>n \<in> set (openList s)\<close> by (simp add: not_less)
        then show ?thesis by (rule skip)
      qed
    qed
  qed
qed

text \<open>A visit that returns either changes nothing or relaxes the neighbour.\<close>

lemma visit_Done_relaxed:
  assumes "visit cur n s = Done s'"
  obtains (skip) "s' = s"
  | (relax) gl where "goalCell s = Some gl" "\<not> obstacle (grid s n)" "n \<notin> set (closedList s)"
      "n \<notin> set (openList s) \<or> g (grid s cur) + 1 < g (grid s n)"
      "grid s' = (grid s)(n := relaxed cur (g (grid s cur) + 1) n gl (grid s n))"
      "closedList s' = closedList s" "set (openList s') = insert n (set (openList s))"
      "cols s' = cols s" "rows s' = rows s"
  using assms
proof (cases rule: visit_Done_cases)
  case skip
  then show ?thesis by (rule that(1))
next
  case (push gl)
  show ?thesis by (rule that(2) [OF push(1-3)]) (simp_all add: push(4,5) fun_eq_iff)
next
  case (improve gl)
  have "insert n (set (openList s)) = set (openList s)" using improve(4) by (rule insert_absorb)
  then show ?thesis by (intro that(2) [OF improve(1-3)]) (simp_all add: improve(5,6) fun_eq_iff)
qed

lemma addNeighbors_cong:
  "cols s = cols t \<Longrightarrow> rows s = rows t \<Longrightarrow> addNeighbors s = addNeighbors t"
  by (simp add: addNeighbors_def fun_eq_iff)

lemma selectCurrent_treeInv:
  assumes "openList s \<noteq> []" "selectCurrent s = (c, s1)" "listsDisjoint s" "treeInv st s"
  shows "treeInv st s1"
proof -
  have d: "distinct (openList s)" using assms(3) by (simp add: listsDisjoint_def)
  note o = selectCurrent_open [OF assms(1,2) d]
  note fl = selectCurrent_fields [OF assms(2)]
  have u: "set (openList s1) \<union> set (closedList s1) = set (openList s) \<union> set (closedList s)"
    using o fl(9) by auto
  have cl: "set (closedList s) \<subseteq> set (closedList s1)" using fl(9) by auto
  have nb: "addNeighbors s1 = addNeighbors s" by (rule addNeighbors_cong) (simp_all add: fl)
  show ?thesis
    using assms(4) cl unfolding treeInv_def u nb fl(3) by blast
qed

lemma visit_treeInv:
  assumes v: "visit cur n s = Done s'" and t: "treeInv st s" and d: "listsDisjoint s"
    and cur: "cur \<in> set (closedList s)" and n: "n \<in> set (addNeighbors s cur)"
  shows "treeInv st s'"
  using v
proof (cases rule: visit_Done_relaxed)
  case skip
  then show ?thesis using t by simp
next
  case (relax gl)
  have g0: "g (grid s st) = 0" and st: "st \<in> set (openList s) \<union> set (closedList s)"
    using t by (simp_all add: treeInv_def)
  have nst: "n \<noteq> st" using relax(3,4) g0 st by auto
  have ncur: "n \<noteq> cur" using cur relax(3) by auto
  have gcur: "g (grid s cur) \<noteq> \<infinity>" using t cur by (auto simp: treeInv_def)
  have nb: "addNeighbors s' = addNeighbors s"
    by (rule addNeighbors_cong) (simp_all add: relax)
  have gr: "grid s' q = (if q = n then relaxed cur (g (grid s cur) + 1) n gl (grid s n) else grid s q)" for q
    by (simp add: relax(5))
  show ?thesis
    unfolding treeInv_def nb relax(6,7)
  proof (intro conjI ballI impI)
    show "st \<in> insert n (set (openList s)) \<union> set (closedList s)" using st by auto
    show "parent (grid s' st) = None" "g (grid s' st) = 0"
      using t nst by (simp_all add: gr treeInv_def)
  next
    fix c assume c: "c \<in> insert n (set (openList s)) \<union> set (closedList s)" "c \<noteq> st"
    show "\<exists>p. parent (grid s' c) = Some p \<and> p \<in> set (closedList s)
        \<and> c \<in> set (addNeighbors s p) \<and> \<not> obstacle (grid s' c)
        \<and> g (grid s' c) = g (grid s' p) + 1"
    proof (cases "c = n")
      case True
      then show ?thesis using cur n ncur relax(2)
        by (intro exI [of _ cur]) (simp add: gr relaxed_def)
    next
      case False
      with c have "c \<in> set (openList s) \<union> set (closedList s)" by auto
      with t c(2) obtain p where p: "parent (grid s c) = Some p" "p \<in> set (closedList s)"
        "c \<in> set (addNeighbors s p)" "\<not> obstacle (grid s c)" "g (grid s c) = g (grid s p) + 1"
        unfolding treeInv_def by blast
      have "p \<noteq> n" using p(2) relax(3) by auto
      with p False show ?thesis by (intro exI [of _ p]) (simp add: gr)
    qed
  next
    fix c assume c: "c \<in> insert n (set (openList s)) \<union> set (closedList s)"
    show "g (grid s' c) \<noteq> \<infinity>"
    proof (cases "c = n")
      case True
      then show ?thesis using gcur by (simp add: gr relaxed_def plus_eq_infty_iff_enat)
    next
      case False
      with c have "c \<in> set (openList s) \<union> set (closedList s)" by auto
      with t False show ?thesis by (simp add: gr treeInv_def)
    qed
  qed
qed

lemma forEachNeighbor_treeInv:
  assumes "forEachNeighbor cur ns s = Done s'" "treeInv st s" "listsDisjoint s"
    "cur \<in> set (closedList s)" "set ns \<subseteq> set (addNeighbors s cur)"
  shows "treeInv st s'"
  using assms
proof (induction ns arbitrary: s)
  case Nil
  then show ?case by simp
next
  case (Cons n ns)
  from Cons.prems(1) obtain s1 where v: "visit cur n s = Done s1"
    and r: "forEachNeighbor cur ns s1 = Done s'"
    by (auto split: completion.splits)
  have n: "n \<in> set (addNeighbors s cur)" using Cons.prems(5) by simp
  have nb: "addNeighbors s1 = addNeighbors s"
    by (rule addNeighbors_cong) (simp_all add: visit_frame [OF v])
  show ?case
  proof (rule Cons.IH [OF r])
    show "treeInv st s1" by (rule visit_treeInv [OF v Cons.prems(2,3,4) n])
    show "listsDisjoint s1" by (rule visit_listsDisjoint [OF v Cons.prems(3)])
    show "cur \<in> set (closedList s1)" using visit_frame(5) [OF v] Cons.prems(4) by simp
    show "set ns \<subseteq> set (addNeighbors s1 cur)" using Cons.prems(5) nb by simp
  qed
qed

lemma stepsFree_cong:
  assumes "cols t = cols s" "rows t = rows s" "\<forall>p. obstacle (grid t p) = obstacle (grid s p)"
  shows "stepsFree t ps = stepsFree s ps"
proof (induction ps rule: induct_list012)
  case (3 p q ps)
  then show ?case using assms(3) addNeighbors_cong [OF assms(1,2)]
    by (simp del: split_paired_All)
qed simp_all

lemma stepsFree_snoc:
  "xs \<noteq> [] \<Longrightarrow> stepsFree s (xs @ [c]) =
     (stepsFree s xs \<and> c \<in> set (addNeighbors s (last xs)) \<and> \<not> obstacle (grid s c))"
  by (induction xs rule: induct_list012) auto

text \<open>From a cell of the search tree the loop returns, with the chain down to the start cell.\<close>

lemma reconstructLoop_chain:
  assumes "treeInv st s" "c \<in> set (openList s) \<union> set (closedList s)" "g (grid s c) = enat k"
  shows "\<exists>path. reconstructLoop (grid s) (Some c) acc = Some (acc @ path)
       \<and> length path = Suc k \<and> hd path = c \<and> last path = st \<and> parentChain (grid s) path
       \<and> stepsFree s (rev path)"
  using assms(2,3)
proof (induction k arbitrary: c acc)
  case 0
  have "c = st"
  proof (rule ccontr)
    assume "c \<noteq> st"
    with assms(1) "0.prems"(1) obtain p where "g (grid s c) = g (grid s p) + 1"
      unfolding treeInv_def by blast
    with "0.prems"(2) show False by (simp add: zero_enat_def [symmetric])
  qed
  then have "parent (grid s c) = None" using assms(1) by (simp add: treeInv_def)
  then have "reconstructLoop (grid s) (Some c) acc = Some (acc @ [c])"
    by (simp add: reconstructLoop.simps)
  with \<open>c = st\<close> \<open>parent (grid s c) = None\<close> show ?case by (intro exI [of _ "[c]"]) simp
next
  case (Suc k)
  have "c \<noteq> st" using assms(1) Suc.prems(2) by (auto simp: treeInv_def zero_enat_def)
  with assms(1) Suc.prems(1) obtain p where p: "parent (grid s c) = Some p"
    "p \<in> set (closedList s)" "g (grid s c) = g (grid s p) + 1"
    "c \<in> set (addNeighbors s p)" "\<not> obstacle (grid s c)"
    unfolding treeInv_def by blast
  have gp: "g (grid s p) = enat k"
    using p(3) Suc.prems(2) by (cases "g (grid s p)") (simp_all add: one_enat_def)
  from Suc.IH [of p "acc @ [c]"] p(2) gp obtain path where
    path: "reconstructLoop (grid s) (Some p) (acc @ [c]) = Some ((acc @ [c]) @ path)"
      "length path = Suc k" "hd path = p" "last path = st" "parentChain (grid s) path"
      "stepsFree s (rev path)"
    by auto
  obtain q qs where q: "path = q # qs" using path(2) by (cases path) auto
  have "reconstructLoop (grid s) (Some c) acc = Some (acc @ c # path)"
    using path(1) p(1) by (subst reconstructLoop.simps) simp
  moreover have "parentChain (grid s) (c # path)" using path(3,5) p(1) q by simp
  moreover have "rev path \<noteq> []" "last (rev path) = p" using path(3) q by (simp_all add: last_rev)
  then have "stepsFree s (rev (c # path))"
    using path(6) p(4,5) stepsFree_snoc [of "rev path" s c] by simp
  ultimately show ?case using path(2,4) q
    by (intro exI [of _ "c # path"]) simp
qed

text \<open>The total form of the invariant rule: the loop returns, and in a state the rule describes.\<close>

lemma whileLoop_total:
  assumes init: "I n s"
    and pass: "\<And>n s c s1 s2. I n s \<Longrightarrow> openList s \<noteq> [] \<Longrightarrow> isSimulationRunning s \<Longrightarrow>
        selectCurrent s = (c, s1) \<Longrightarrow> expandCurrent (n + 1) c s1 = Some (Next s2) \<Longrightarrow> I (n + 1) s2"
    and leave: "\<And>n s c s1. I n s \<Longrightarrow> openList s \<noteq> [] \<Longrightarrow> isSimulationRunning s \<Longrightarrow>
        selectCurrent s = (c, s1) \<Longrightarrow>
        \<exists>r. expandCurrent (n + 1) c s1 = Some r \<and> (\<forall>e t. r = Exit e t \<longrightarrow> Q e t)"
    and empty: "\<And>n s. I n s \<Longrightarrow> openList s = [] \<Longrightarrow> Q OpenExhausted s"
    and stopped: "\<And>n s. I n s \<Longrightarrow> openList s \<noteq> [] \<Longrightarrow> \<not> isSimulationRunning s \<Longrightarrow> Q Stopped s"
  shows "\<exists>e t. whileLoop n s = Some (e, t) \<and> Q e t"
  using init
proof (induction n s rule: whileLoop.induct)
  case (1 n s)
  show ?case
  proof (cases "openList s = []")
    case True
    with "1.prems" empty show ?thesis by (simp add: whileLoop_empty)
  next
    case nonempty: False
    show ?thesis
    proof (cases "isSimulationRunning s")
      case False
      with nonempty "1.prems" stopped show ?thesis by (simp add: whileLoop_stopped)
    next
      case True
      obtain c s1 where sel: "selectCurrent s = (c, s1)" by (cases "selectCurrent s")
      note unfold = whileLoop_pass [OF nonempty True sel, of n]
      from leave [OF "1.prems" nonempty True sel] obtain r where
        r: "expandCurrent (n + 1) c s1 = Some r" "\<forall>e t. r = Exit e t \<longrightarrow> Q e t" by blast
      show ?thesis
      proof (cases r)
        case (Next s2)
        have "I (n + 1) s2" using pass [OF "1.prems" nonempty True sel] r(1) Next by simp
        then have "\<exists>e t. whileLoop (n + 1) s2 = Some (e, t) \<and> Q e t"
          using "1.IH" [OF nonempty _ sel [symmetric] r(1) Next] True by simp
        then show ?thesis using unfold r(1) Next by simp
      next
        case (Exit e' t')
        then show ?thesis using unfold r by simp
      qed
    qed
  qed
qed

lemma beginSimulation_start:
  assumes "startCell s = Some st" "goalCell s = Some gl" "in_grid s st"
  shows "\<exists>s0. beginSimulation s = Done s0 \<and> openList s0 = [st] \<and> closedList s0 = []
       \<and> finalPath s0 = [] \<and> isSimulationRunning s0 \<and> goalCell s0 = Some gl
       \<and> startCell s0 = Some st \<and> cols s0 = cols s \<and> rows s0 = rows s
       \<and> grid s0 st = (grid s st)\<lparr>g := 0, h := enat (manhattanDistance st gl),
            f := enat (manhattanDistance st gl), parent := None\<rparr>
       \<and> (\<forall>p. obstacle (grid s0 p) = obstacle (grid s p))"
  using assms
  by (simp add: beginSimulation_def Let_def grid_resetCells
        in_grid_cong [of "s\<lparr>isSimulationRunning := True\<rparr>" s] zero_enat_def [symmetric])

lemma selectCurrent_closed: "selectCurrent s = (c, s1) \<Longrightarrow> c \<in> set (closedList s1)"
  using selectCurrent_fields(9) [of s c s1] by simp

lemma pathInvariant_await:
  assumes "pathInvariant st gl s" "openList s \<noteq> []" "selectCurrent s = (c, s1)"
  shows "pathInvariant st gl s1"
  using assms selectCurrent_treeInv [OF assms(2,3)] selectCurrent_listsDisjoint [OF assms(2,3)]
    selectCurrent_fields(5) [OF assms(3)]
  by (simp add: pathInvariant_def)

lemma pathInvariant_forEach:
  assumes "pathInvariant st gl s1" "c \<in> set (closedList s1)"
    "forEachNeighbor c (addNeighbors s1 c) s1 = Done s2"
  shows "pathInvariant st gl s2"
  using assms forEachNeighbor_treeInv [OF assms(3), of st] forEachNeighbor_listsDisjoint [OF assms(3)]
    forEachNeighbor_goalCell [OF assms(3)]
  by (simp add: pathInvariant_def)

lemma pathInvariant_goal:
  assumes "pathInvariant st gl s1" "gl \<in> set (closedList s1)"
  shows "\<exists>t. reconstructPath gl s1 = Some t \<and> pathFound st gl t \<and> grid t = grid s1
       \<and> closedList t = closedList s1"
proof -
  have t: "treeInv st s1" using assms(1) by (simp add: pathInvariant_def)
  then have "g (grid s1 gl) \<noteq> \<infinity>" using assms(2) by (simp add: treeInv_def)
  then obtain k where k: "g (grid s1 gl) = enat k" by auto
  from reconstructLoop_chain [OF t _ k, of "[]"] assms(2) obtain path where
    path: "reconstructLoop (grid s1) (Some gl) [] = Some path" "length path = Suc k"
      "hd path = gl" "last path = st" "parentChain (grid s1) path" "stepsFree s1 (rev path)"
    by auto
  have ne: "path \<noteq> []" using path(2) by auto
  have "reconstructPath gl s1 = Some (s1\<lparr>finalPath := rev path\<rparr>)"
    using path(1) by (simp add: reconstructPath_def)
  moreover have "stepsFree (s1\<lparr>finalPath := rev path\<rparr>) (rev path)"
    using path(6) stepsFree_cong [of "s1\<lparr>finalPath := rev path\<rparr>" s1] by simp
  moreover have "pathFound st gl (s1\<lparr>finalPath := rev path\<rparr>)"
    using path ne k calculation(2) by (simp add: pathFound_def hd_rev last_rev one_enat_def)
  ultimately show ?thesis by simp
qed

lemma whileLoop_pathFound:
  assumes "pathInvariant st gl s"
  shows "\<exists>e t. whileLoop n s = Some (e, t) \<and> (e = GoalFound \<longrightarrow> pathFound st gl t)"
proof (rule whileLoop_total [where I = "\<lambda>n s. pathInvariant st gl s"])
  show "pathInvariant st gl s" by (rule assms)
next
  fix n s c s1 s2
  assume a: "pathInvariant st gl s" "openList s \<noteq> []" "selectCurrent s = (c, s1)"
    "expandCurrent (n + 1) c s1 = Some (Next s2)"
  have i1: "pathInvariant st gl s1" by (rule pathInvariant_await [OF a(1,2,3)])
  show "pathInvariant st gl s2"
    by (rule pathInvariant_forEach [OF i1 selectCurrent_closed [OF a(3)]])
       (use expandCurrent_Next_forEach [OF a(4)] in simp)
next
  fix n s c s1
  assume a: "pathInvariant st gl s" "openList s \<noteq> []" "selectCurrent s = (c, s1)"
  have i1: "pathInvariant st gl s1" by (rule pathInvariant_await [OF a(1,2,3)])
  then have gl: "goalCell s1 = Some gl" by (simp add: pathInvariant_def)
  show "\<exists>r. expandCurrent (n + 1) c s1 = Some r
      \<and> (\<forall>e t. r = Exit e t \<longrightarrow> e = GoalFound \<longrightarrow> pathFound st gl t)"
  proof (cases "c = gl")
    case True
    from pathInvariant_goal [OF i1] selectCurrent_closed [OF a(3)] True obtain t where
      "reconstructPath gl s1 = Some t" "pathFound st gl t" by blast
    then show ?thesis using True gl by (simp add: expandCurrent_def)
  next
    case False
    from forEachNeighbor_total [OF gl, of c "addNeighbors s1 c"] obtain t where
      "forEachNeighbor c (addNeighbors s1 c) s1 = Done t" by blast
    then show ?thesis using False gl by (simp add: expandCurrent_def)
  qed
qed simp_all

lemma pathFound_epilogue:
  "pathFound st gl t \<Longrightarrow> pathFound st gl (t\<lparr>isSimulationRunning := False\<rparr>)"
  using stepsFree_cong [of "t\<lparr>isSimulationRunning := False\<rparr>" t] by (simp add: pathFound_def)

lemma beginSimulation_pathInvariant:
  assumes "startCell s = Some st" "goalCell s = Some gl" "in_grid s st"
  shows "\<exists>s0. beginSimulation s = Done s0 \<and> pathInvariant st gl s0"
proof -
  from beginSimulation_start [OF assms] obtain s0 where
    s0: "beginSimulation s = Done s0" "openList s0 = [st]" "closedList s0 = []"
      "goalCell s0 = Some gl"
      "grid s0 st = (grid s st)\<lparr>g := 0, h := enat (manhattanDistance st gl),
            f := enat (manhattanDistance st gl), parent := None\<rparr>"
    by blast
  have "pathInvariant st gl s0"
    using s0(2-5) by (simp add: pathInvariant_def treeInv_def listsDisjoint_def)
  with s0(1) show ?thesis by blast
qed

text \<open>
  Claim C6. A run from a state with a start cell of the grid and a goal cell returns: the
  walk along the parent links ends. When the run ends at the goal, the path is not empty,
  begins with the start cell and ends with the goal cell; read backwards, each of its
  cells has the next one as its parent, and the last one, the start cell, is the one cell
  of it with no parent.
\<close>

theorem reconstruction_reaches_start:
  assumes "startCell s = Some st" and "goalCell s = Some gl" and "in_grid s st"
    and "\<not> isSimulationRunning s"
  shows "\<exists>e t. startSimulation s = Some (e, t)
       \<and> (e = GoalFound \<longrightarrow> finalPath t \<noteq> [] \<and> hd (finalPath t) = st
              \<and> last (finalPath t) = gl \<and> parentChain (grid t) (rev (finalPath t)))"
proof -
  from beginSimulation_pathInvariant [OF assms(1-3)] obtain s0 where
    s0: "beginSimulation s = Done s0" "pathInvariant st gl s0" by blast
  from whileLoop_pathFound [OF s0(2), of 0] obtain e t where
    w: "whileLoop 0 s0 = Some (e, t)" "e = GoalFound \<longrightarrow> pathFound st gl t" by blast
  show ?thesis
  proof (cases "e = TypeError")
    case True
    then show ?thesis using assms(4) s0(1) w by (simp add: startSimulation_def)
  next
    case False
    then have "startSimulation s = Some (e, t\<lparr>isSimulationRunning := False\<rparr>)"
      using assms(4) s0(1) w(1) by (simp add: startSimulation_def)
    moreover have "e = GoalFound \<longrightarrow> pathFound st gl (t\<lparr>isSimulationRunning := False\<rparr>)"
      using w(2) pathFound_epilogue by blast
    ultimately show ?thesis by (auto simp: pathFound_def)
  qed
qed

theorem reconstruction_reaches_start_witness:
  "startCell (setupState 2 2 (0, 0) (1, 1)) = Some (0, 0)
   \<and> goalCell (setupState 2 2 (0, 0) (1, 1)) = Some (1, 1)
   \<and> in_grid (setupState 2 2 (0, 0) (1, 1)) (0, 0)
   \<and> \<not> isSimulationRunning (setupState 2 2 (0, 0) (1, 1))
   \<and> (\<exists>t. startSimulation (setupState 2 2 (0, 0) (1, 1)) = Some (GoalFound, t)
        \<and> finalPath t \<noteq> [] \<and> hd (finalPath t) = (0, 0)
        \<and> last (finalPath t) = (1, 1) \<and> parentChain (grid t) (rev (finalPath t)))"
proof -
  let ?s = "setupState 2 2 (0, 0) (1, 1)"
  have h: "startCell ?s = Some (0, 0)" "goalCell ?s = Some (1, 1)" "in_grid ?s (0, 0)"
    "\<not> isSimulationRunning ?s"
    by (simp_all add: setupState_def in_grid_def)
  have found: "map_option fst (startSimulation ?s) = Some GoalFound" by code_simp
  from reconstruction_reaches_start [OF h] obtain e t where
    r: "startSimulation ?s = Some (e, t)"
      "e = GoalFound \<longrightarrow> finalPath t \<noteq> [] \<and> hd (finalPath t) = (0, 0)
         \<and> last (finalPath t) = (1, 1) \<and> parentChain (grid t) (rev (finalPath t))"
    by blast
  from found r(1) have "e = GoalFound" by simp
  with r h show ?thesis by blast
qed

section \<open>Shortest paths\<close>

text \<open>Manhattan distance on the grid.\<close>

lemma manhattanDistance_triangle:
  "manhattanDistance a c \<le> manhattanDistance a b + manhattanDistance b c"
  by (cases a; cases b; cases c) (simp add: manhattanDistance_def)

lemma manhattanDistance_neighbor:
  "n \<in> set (addNeighbors s c) \<Longrightarrow> manhattanDistance c n = 1"
  by (cases c) (auto simp: addNeighbors_def manhattanDistance_def split: if_splits)

lemma manhattanDistance_self [simp]: "manhattanDistance a a = 0"
  by (cases a) (simp add: manhattanDistance_def)

lemma addNeighbors_in_grid:
  "in_grid s c \<Longrightarrow> n \<in> set (addNeighbors s c) \<Longrightarrow> in_grid s n"
  by (cases c) (auto simp: addNeighbors_def in_grid_def split: if_splits)

lemma stepsFree_distance:
  "stepsFree s (q # qs) \<Longrightarrow> manhattanDistance q (last (q # qs)) \<le> length qs"
proof (induction qs arbitrary: q)
  case Nil
  then show ?case by simp
next
  case (Cons r rs)
  then have "manhattanDistance r (last (r # rs)) \<le> length rs" by simp
  moreover have "manhattanDistance q r = 1"
    using Cons.prems manhattanDistance_neighbor [of r s q] by simp
  ultimately show ?case
    using manhattanDistance_triangle [of q "last (r # rs)" r] by simp
qed

lemma stepsFree_in_grid:
  "stepsFree s (q # qs) \<Longrightarrow> in_grid s q \<Longrightarrow> in_grid s (last (q # qs))"
proof (induction qs arbitrary: q)
  case Nil
  then show ?case by simp
next
  case (Cons r rs)
  then show ?case using addNeighbors_in_grid [of s q r] by simp
qed

lemma in_grid_eq: "cols t = cols s \<Longrightarrow> rows t = rows s \<Longrightarrow> in_grid t p = in_grid s p"
  by (simp add: in_grid_def)

lemma visit_scoreInv:
  assumes v: "visit cur n s = Done s'" and sc: "scoreInv st gl s" and gl: "goalCell s = Some gl"
    and cur: "cur \<in> set (closedList s)" and n: "n \<in> set (addNeighbors s cur)"
  shows "scoreInv st gl s'"
  using v
proof (cases rule: visit_Done_relaxed)
  case skip
  then show ?thesis using sc by simp
next
  case (relax gl')
  have [simp]: "gl' = gl" using relax(1) gl by simp
  have ig: "in_grid s' = in_grid s" by (rule in_grid_cong) (simp_all add: relax)
  from sc cur obtain k where k: "g (grid s cur) = enat k" "manhattanDistance st cur \<le> k"
    and igc: "in_grid s cur"
    unfolding scoreInv_def by blast
  have dn: "manhattanDistance st n \<le> k + 1"
    using manhattanDistance_triangle [of st n cur] manhattanDistance_neighbor [OF n] k(2) by simp
  have new: "in_grid s n \<and> (\<exists>j. g (grid s' n) = enat j \<and> manhattanDistance st n \<le> j
      \<and> f (grid s' n) = enat (j + manhattanDistance n gl))"
    using dn k(1) addNeighbors_in_grid [OF igc n]
    by (simp add: relax(5) relaxed_def one_enat_def)
  show ?thesis
    unfolding scoreInv_def ig relax(6,7)
  proof
    fix c assume c: "c \<in> insert n (set (openList s)) \<union> set (closedList s)"
    show "in_grid s c \<and> (\<exists>k. g (grid s' c) = enat k \<and> manhattanDistance st c \<le> k
        \<and> f (grid s' c) = enat (k + manhattanDistance c gl))"
    proof (cases "c = n")
      case True
      then show ?thesis using new by simp
    next
      case False
      with c have "c \<in> set (openList s) \<union> set (closedList s)" by auto
      with sc False show ?thesis by (simp add: scoreInv_def relax(5))
    qed
  qed
qed

lemma forEachNeighbor_scoreInv:
  assumes "forEachNeighbor cur ns s = Done s'" "scoreInv st gl s" "goalCell s = Some gl"
    "cur \<in> set (closedList s)" "set ns \<subseteq> set (addNeighbors s cur)"
  shows "scoreInv st gl s'"
  using assms
proof (induction ns arbitrary: s)
  case Nil
  then show ?case by simp
next
  case (Cons n ns)
  from Cons.prems(1) obtain s1 where v: "visit cur n s = Done s1"
    and r: "forEachNeighbor cur ns s1 = Done s'"
    by (auto split: completion.splits)
  have n: "n \<in> set (addNeighbors s cur)" using Cons.prems(5) by simp
  have nb: "addNeighbors s1 = addNeighbors s"
    by (rule addNeighbors_cong) (simp_all add: visit_frame [OF v])
  show ?case
  proof (rule Cons.IH [OF r])
    show "scoreInv st gl s1" by (rule visit_scoreInv [OF v Cons.prems(2,3,4) n])
    show "goalCell s1 = Some gl" using visit_frame(4) [OF v] Cons.prems(3) by simp
    show "cur \<in> set (closedList s1)" using visit_frame(5) [OF v] Cons.prems(4) by simp
    show "set ns \<subseteq> set (addNeighbors s1 cur)" using Cons.prems(5) nb by simp
  qed
qed

lemma forEachNeighbor_obstacle:
  "forEachNeighbor cur ns s = Done s' \<Longrightarrow> obstacle (grid s' p) = obstacle (grid s p)"
proof (induction ns arbitrary: s)
  case Nil
  then show ?case by simp
next
  case (Cons n ns)
  from Cons.prems(1) obtain s1 where v: "visit cur n s = Done s1"
    and r: "forEachNeighbor cur ns s1 = Done s'"
    by (auto split: completion.splits)
  show ?case using Cons.IH [OF r] visit_obstacle [OF v] by simp
qed

lemma scoreInvD:
  assumes "scoreInv st gl s" "c \<in> set (openList s) \<union> set (closedList s)"
  obtains k where "g (grid s c) = enat k" "manhattanDistance st c \<le> k"
    "f (grid s c) = enat (k + manhattanDistance c gl)" "in_grid s c"
  using assms unfolding scoreInv_def by blast

lemma grid_card: "card {p. in_grid s p} = nat (cols s) * nat (rows s)"
proof -
  have "{p. in_grid s p} = {0..<cols s} \<times> {0..<rows s}"
    by (auto simp: in_grid_def)
  then show ?thesis by (simp add: card_cartesian_product)
qed

lemma grid_finite: "finite {p. in_grid s p}"
proof -
  have "{p. in_grid s p} = {0..<cols s} \<times> {0..<rows s}"
    by (auto simp: in_grid_def)
  then show ?thesis by simp
qed

text \<open>Without obstacles there is a path as long as the Manhattan distance: along \<open>x\<close> first, then along \<open>y\<close>.\<close>

lemma towards_step:
  assumes "in_grid s p" "in_grid s q" "p \<noteq> q"
  shows "towards p q \<in> set (addNeighbors s p)"
    and "Suc (manhattanDistance (towards p q) q) = manhattanDistance p q"
  using assms
  by (cases p; cases q; auto simp: in_grid_def addNeighbors_def manhattanDistance_def)+

lemma walk_free:
  assumes "in_grid s q" "\<forall>c. in_grid s c \<longrightarrow> \<not> obstacle (grid s c)"
  shows "in_grid s p \<Longrightarrow> manhattanDistance p q = n \<Longrightarrow>
    stepsFree s (p # walk n p q) \<and> last (p # walk n p q) = q \<and> length (walk n p q) = n"
proof (induction n arbitrary: p)
  case 0
  then have "p = q" by (cases p; cases q) (auto simp: manhattanDistance_def)
  then show ?case by simp
next
  case (Suc n)
  then have ne: "p \<noteq> q" by auto
  note st = towards_step [OF Suc.prems(1) assms(1) ne]
  have ig: "in_grid s (towards p q)" by (rule addNeighbors_in_grid [OF Suc.prems(1) st(1)])
  have "manhattanDistance (towards p q) q = n" using st(2) Suc.prems(2) by simp
  moreover have "\<not> obstacle (grid s (towards p q))" using assms(2) ig by blast
  ultimately show ?case using Suc.IH [OF ig] st(1) by simp
qed

lemma visit_expandedInv:
  assumes v: "visit cur n s = Done s'" and e: "expandedInv X s"
  shows "expandedInv X s'"
  using v
proof (cases rule: visit_Done_relaxed)
  case skip
  then show ?thesis using e by simp
next
  case (relax gl)
  have nb: "addNeighbors s' = addNeighbors s" by (rule addNeighbors_cong) (simp_all add: relax)
  show ?thesis
    unfolding expandedInv_def nb relax(6,7)
  proof (intro ballI impI)
    fix c m
    assume c: "c \<in> set (closedList s) - X" and m: "m \<in> set (addNeighbors s c)"
      and free: "\<not> obstacle (grid s' m)"
    have cn: "c \<noteq> n" using c relax(3) by auto
    have "\<not> obstacle (grid s m)" using free by (simp add: relax(5) relaxed_def split: if_splits)
    with e c m have old: "m \<in> set (openList s) \<union> set (closedList s)"
      "g (grid s m) \<le> g (grid s c) + 1"
      unfolding expandedInv_def by blast+
    have "g (grid s' m) \<le> g (grid s m)"
    proof (cases "m = n")
      case True
      with old(1) relax(3,4) have "g (grid s cur) + 1 < g (grid s n)" by auto
      with True show ?thesis by (simp add: relax(5) relaxed_def)
    next
      case False
      then show ?thesis by (simp add: relax(5))
    qed
    with old cn show "m \<in> insert n (set (openList s)) \<union> set (closedList s)
        \<and> g (grid s' m) \<le> g (grid s' c) + 1"
      by (auto simp: relax(5))
  qed
qed

lemma visit_closedInv:
  assumes "visit cur n s = Done s'" "closedInv m s"
  shows "closedInv m s'"
  using assms visit_closed_untouched [OF assms(1)] visit_frame(5) [OF assms(1)]
  by (simp add: closedInv_def)

lemma visit_topInv:
  assumes "visit cur n s = Done s'" "topInv cur s" "cur \<in> set (closedList s)"
  shows "topInv cur s'"
  using assms visit_closed_untouched [OF assms(1)] visit_frame(5) [OF assms(1)]
  by (simp add: topInv_def)

lemma visit_monoInv:
  assumes v: "visit cur n s = Done s'" and mo: "monoInv s" and top: "topInv cur s"
    and sc: "scoreInv st gl s" and gl: "goalCell s = Some gl"
    and cur: "cur \<in> set (closedList s)" and n: "n \<in> set (addNeighbors s cur)"
  shows "monoInv s'"
  using v
proof (cases rule: visit_Done_relaxed)
  case skip
  then show ?thesis using mo by simp
next
  case (relax gl')
  have [simp]: "gl' = gl" using relax(1) gl by simp
  from sc cur obtain k where k: "g (grid s cur) = enat k"
    "f (grid s cur) = enat (k + manhattanDistance cur gl)"
    by (auto elim: scoreInvD)
  have "manhattanDistance cur gl \<le> 1 + manhattanDistance n gl"
    using manhattanDistance_triangle [of cur gl n] manhattanDistance_neighbor [OF n] by simp
  then have fn: "f (grid s cur) \<le> f (grid s' n)"
    using k by (simp add: relax(5) relaxed_def one_enat_def)
  show ?thesis
    unfolding monoInv_def relax(6,7)
  proof (intro ballI)
    fix c d assume c: "c \<in> set (closedList s)" and d: "d \<in> insert n (set (openList s))"
    have cn: "c \<noteq> n" using c relax(3) by auto
    then have fc: "f (grid s' c) = f (grid s c)" by (simp add: relax(5))
    show "f (grid s' c) \<le> f (grid s' d)"
    proof (cases "d = n")
      case True
      have "f (grid s c) \<le> f (grid s cur)" using top c by (simp add: topInv_def)
      then show ?thesis using fn fc True by (auto intro: order_trans)
    next
      case False
      with d have "d \<in> set (openList s)" by simp
      with mo c have "f (grid s c) \<le> f (grid s d)" by (simp add: monoInv_def)
      then show ?thesis using fc False by (simp add: relax(5))
    qed
  qed
qed

lemma visit_depthInv:
  assumes v: "visit cur n s = Done s'" and dp: "depthInv s" and cur: "cur \<in> set (closedList s)"
  shows "depthInv s'"
  using v
proof (cases rule: visit_Done_relaxed)
  case skip
  then show ?thesis using dp by simp
next
  case (relax gl)
  have "g (grid s cur) < enat (length (closedList s))" using dp cur by (simp add: depthInv_def)
  then have gn: "g (grid s' n) \<le> enat (length (closedList s))"
    by (cases "g (grid s cur)") (simp_all add: relax(5) relaxed_def one_enat_def)
  show ?thesis
    unfolding depthInv_def relax(6,7)
  proof (intro conjI ballI)
    fix c assume c: "c \<in> set (closedList s)"
    then have "c \<noteq> n" using relax(3) by auto
    then show "g (grid s' c) < enat (length (closedList s))"
      using dp c by (simp add: relax(5) depthInv_def)
  next
    fix c assume c: "c \<in> insert n (set (openList s))"
    show "g (grid s' c) \<le> enat (length (closedList s))"
    proof (cases "c = n")
      case True
      then show ?thesis using gn by simp
    next
      case False
      with c dp show ?thesis by (simp add: relax(5) depthInv_def)
    qed
  qed
qed

lemma visit_visitInv:
  assumes v: "visit cur n s = Done s'" and i: "visitInv cur st gl m s"
    and n: "n \<in> set (addNeighbors s cur)"
  shows "visitInv cur st gl m s'"
proof -
  have a: "scoreInv st gl s" "closedInv m s" "monoInv s" "topInv cur s" "depthInv s"
    "expandedInv {cur} s" "goalCell s = Some gl" "cur \<in> set (closedList s)"
    using i by (simp_all add: visitInv_def)
  have "scoreInv st gl s'" by (rule visit_scoreInv [OF v a(1,7,8) n])
  moreover have "closedInv m s'" by (rule visit_closedInv [OF v a(2)])
  moreover have "monoInv s'" by (rule visit_monoInv [OF v a(3,4,1,7,8) n])
  moreover have "topInv cur s'" by (rule visit_topInv [OF v a(4,8)])
  moreover have "depthInv s'" by (rule visit_depthInv [OF v a(5,8)])
  moreover have "expandedInv {cur} s'" by (rule visit_expandedInv [OF v a(6)])
  moreover have "goalCell s' = Some gl" "cur \<in> set (closedList s')"
    using visit_frame(4,5) [OF v] a(7,8) by simp_all
  ultimately show ?thesis by (simp add: visitInv_def)
qed

lemma forEachNeighbor_visitInv:
  assumes "forEachNeighbor cur ns s = Done s'" "visitInv cur st gl m s"
    "set ns \<subseteq> set (addNeighbors s cur)"
  shows "visitInv cur st gl m s'"
  using assms
proof (induction ns arbitrary: s)
  case Nil
  then show ?case by simp
next
  case (Cons n ns)
  from Cons.prems(1) obtain s1 where v: "visit cur n s = Done s1"
    and r: "forEachNeighbor cur ns s1 = Done s'"
    by (auto split: completion.splits)
  have n: "n \<in> set (addNeighbors s cur)" using Cons.prems(3) by simp
  have nb: "addNeighbors s1 = addNeighbors s"
    by (rule addNeighbors_cong) (simp_all add: visit_frame [OF v])
  show ?case
    by (rule Cons.IH [OF r visit_visitInv [OF v Cons.prems(2) n]])
       (use Cons.prems(3) nb in simp)
qed

text \<open>After the whole \<open>forEach\<close> the current cell is expanded too.\<close>

lemma forEachNeighbor_expands_current:
  assumes fe: "forEachNeighbor cur (addNeighbors s cur) s = Done s'"
    and gl: "goalCell s = Some gl" and cur: "cur \<in> set (closedList s)"
    and e: "expandedInv {cur} s'"
    and closed_nb: "\<forall>n\<in>set (addNeighbors s cur). n \<in> set (closedList s) \<longrightarrow>
        g (grid s n) \<le> g (grid s cur) + 1"
  shows "expandedInv {} s'"
proof -
  have cl: "closedList s' = closedList s" by (rule forEachNeighbor_closedList [OF fe])
  have fr: "cols s' = cols s" "rows s' = rows s" using forEachNeighbor_frame [OF fe] by simp_all
  have nb: "addNeighbors s' = addNeighbors s" by (rule addNeighbors_cong [OF fr])
  have gcur: "grid s' cur = grid s cur" by (rule forEachNeighbor_closed_untouched [OF fe cur])
  have "n \<in> set (openList s') \<union> set (closedList s) \<and> g (grid s' n) \<le> g (grid s' cur) + 1"
    if n: "n \<in> set (addNeighbors s cur)" and free: "\<not> obstacle (grid s' n)" for n
  proof (cases "n \<in> set (closedList s)")
    case True
    then have "grid s' n = grid s n" by (rule forEachNeighbor_closed_untouched [OF fe])
    with closed_nb n True show ?thesis by (simp add: gcur)
  next
    case False
    have "neighborOutcome cur gl n s s'"
      by (rule forEachNeighbor_neighborOutcome
            [OF fe gl addNeighbors_distinct addNeighbors_irrefl n])
    moreover have "\<not> obstacle (grid s n)" using free forEachNeighbor_obstacle [OF fe] by simp
    ultimately show ?thesis using False
      by (auto simp: neighborOutcome_def gcur relaxed_def not_less split: if_splits)
  qed
  then show ?thesis
    using e unfolding expandedInv_def nb cl by blast
qed

text \<open>
  Along a free path that ends at a goal not yet closed, some cell is in the open list with
  an \<open>f\<close> no more than the \<open>g\<close> of the path's first cell plus the steps that remain.
\<close>

lemma open_cell_on_path:
  assumes sc: "scoreInv st gl s" and ex: "expandedInv {} s" and goal: "gl \<notin> set (closedList s)"
  shows "stepsFree s (q # qs) \<Longrightarrow> last (q # qs) = gl \<Longrightarrow>
    q \<in> set (openList s) \<union> set (closedList s) \<Longrightarrow> g (grid s q) = enat k \<Longrightarrow>
    \<exists>c\<in>set (openList s). f (grid s c) \<le> enat (k + length qs)"
proof (induction qs arbitrary: q k)
  case Nil
  then have "q = gl" by simp
  with Nil.prems(3) goal have q: "q \<in> set (openList s)" by simp
  from scoreInvD [OF sc Nil.prems(3)] Nil.prems(4) \<open>q = gl\<close> have "f (grid s q) = enat k"
    by (metis add.right_neutral enat.inject manhattanDistance_self)
  then have "f (grid s q) \<le> enat (k + length ([] :: pos list))" by simp
  then show ?case using q by (intro bexI [of _ q])
next
  case (Cons r rs)
  have r: "r \<in> set (addNeighbors s q)" "\<not> obstacle (grid s r)" "stepsFree s (r # rs)"
    "last (r # rs) = gl"
    using Cons.prems(1,2) by simp_all
  show ?case
  proof (cases "q \<in> set (closedList s)")
    case False
    with Cons.prems(3) have q: "q \<in> set (openList s)" by simp
    from scoreInvD [OF sc Cons.prems(3)] Cons.prems(4)
    have "f (grid s q) = enat (k + manhattanDistance q gl)"
      by (metis enat.inject)
    moreover have "manhattanDistance q gl \<le> length (r # rs)"
      using stepsFree_distance [OF Cons.prems(1)] Cons.prems(2) by simp
    ultimately have "f (grid s q) \<le> enat (k + length (r # rs))" by simp
    then show ?thesis using q by (intro bexI [of _ q])
  next
    case True
    with ex r(1,2) have ro: "r \<in> set (openList s) \<union> set (closedList s)"
      "g (grid s r) \<le> g (grid s q) + 1"
      unfolding expandedInv_def by blast+
    from sc ro(1) obtain j where j: "g (grid s r) = enat j"
      by (auto elim: scoreInvD)
    have jk: "j \<le> k + 1" using ro(2) j Cons.prems(4) by (simp add: one_enat_def)
    from Cons.IH [OF r(3,4) ro(1) j] obtain c where
      c: "c \<in> set (openList s)" "f (grid s c) \<le> enat (j + length rs)" by blast
    have "enat (j + length rs) \<le> enat (k + length (r # rs))" using jk by simp
    with c(2) have "f (grid s c) \<le> enat (k + length (r # rs))" by (rule order_trans)
    then show ?thesis using c(1) by (intro bexI [of _ c])
  qed
qed

lemma searchInv_open_cell:
  assumes inv: "searchInv s0 st gl m n s"
    and path: "stepsFree s0 (st # qs)" "last (st # qs) = gl" "length qs = m"
  shows "\<exists>c\<in>set (openList s). f (grid s c) \<le> enat m"
proof -
  have sf: "stepsFree s (st # qs)"
    using path(1) stepsFree_cong [of s s0 "st # qs"] inv by (simp add: searchInv_def)
  have t: "treeInv st s" using inv by (simp add: searchInv_def pathInvariant_def)
  then have st: "st \<in> set (openList s) \<union> set (closedList s)" "g (grid s st) = enat 0"
    by (simp_all add: treeInv_def zero_enat_def)
  have "\<exists>c\<in>set (openList s). f (grid s c) \<le> enat (0 + length qs)"
    by (rule open_cell_on_path [where st = st and gl = gl, OF _ _ _ sf path(2) st])
       (use inv in \<open>simp_all add: searchInv_def\<close>)
  then show ?thesis using path(3) by simp
qed

lemma searchInv_await:
  assumes inv: "searchInv s0 st gl m n s" and ne: "openList s \<noteq> []"
    and sel: "selectCurrent s = (c, s1)"
    and path: "stepsFree s0 (st # qs)" "last (st # qs) = gl" "length qs = m"
  shows "pathInvariant st gl s1" "visitInv c st gl m s1"
    "closedList s1 = closedList s @ [c]"
    "\<forall>n\<in>set (addNeighbors s1 c). n \<in> set (closedList s1) \<longrightarrow>
        g (grid s1 n) \<le> g (grid s1 c) + 1"
proof -
  note fl = selectCurrent_fields [OF sel]
  have pi: "pathInvariant st gl s" and sc: "scoreInv st gl s"
    and cl: "closedInv m s" and ex: "expandedInv {} s" and mo: "monoInv s"
    and dp: "depthInv s" and len: "length (closedList s) = n"
    using inv by (simp_all add: searchInv_def)
  have d: "distinct (openList s)" using pi by (simp add: pathInvariant_def listsDisjoint_def)
  note o = selectCurrent_open [OF ne sel d]
  have cnc: "c \<notin> set (closedList s)"
    using o(1) pi by (auto simp: pathInvariant_def listsDisjoint_def)
  have u: "set (openList s1) \<union> set (closedList s1) = set (openList s) \<union> set (closedList s)"
    using o fl(9) by auto
  have ig: "in_grid s1 = in_grid s" by (rule in_grid_cong) (simp_all add: fl)
  have nb: "addNeighbors s1 = addNeighbors s" by (rule addNeighbors_cong) (simp_all add: fl)
  show p1: "pathInvariant st gl s1" by (rule pathInvariant_await [OF pi ne sel])
  have sc1: "scoreInv st gl s1" using sc unfolding scoreInv_def u ig fl(3) .
  show "closedList s1 = closedList s @ [c]" by (rule fl(9))
  have least: "f (grid s c) \<le> f (grid s d)" if "d \<in> set (openList s)" for d
  proof -
    from that obtain j where j: "j < length (openList s)" "openList s ! j = d"
      by (auto simp: in_set_conv_nth)
    from selectCurrent_first_min [OF ne sel] j show ?thesis by auto
  qed
  from searchInv_open_cell [OF inv path] obtain d where
    dd: "d \<in> set (openList s)" "f (grid s d) \<le> enat m" by blast
  have "f (grid s c) \<le> f (grid s d)" by (rule least [OF dd(1)])
  then have fc: "f (grid s c) \<le> enat m" using dd(2) by (rule order_trans)
  have cl1: "closedInv m s1" using cl fc by (auto simp: closedInv_def fl(3,9))
  have top1: "topInv c s1"
    using mo o(1) by (auto simp: topInv_def monoInv_def fl(3,9))
  have mo1: "monoInv s1"
    using mo least o(3) by (auto simp: monoInv_def fl(3,9))
  have gc: "g (grid s c) \<le> enat n" using dp o(1) len by (simp add: depthInv_def)
  have dp1: "depthInv s1"
    unfolding depthInv_def fl(3,9)
  proof (intro conjI ballI)
    fix a assume "a \<in> set (closedList s @ [c])"
    then consider "a \<in> set (closedList s)" | "a = c" by auto
    then show "g (grid s a) < enat (length (closedList s @ [c]))"
    proof cases
      case 1
      with dp have "g (grid s a) < enat (length (closedList s))" by (simp add: depthInv_def)
      also have "\<dots> < enat (length (closedList s @ [c]))" by simp
      finally show ?thesis .
    next
      case 2
      from gc have "g (grid s c) < enat (Suc n)"
        by (cases "g (grid s c)") simp_all
      with 2 len show ?thesis by simp
    qed
  next
    fix a assume "a \<in> set (openList s1)"
    then have "a \<in> set (openList s)" using o(3) by simp
    with dp have "g (grid s a) \<le> enat (length (closedList s))" by (simp add: depthInv_def)
    also have "\<dots> \<le> enat (length (closedList s @ [c]))" by simp
    finally show "g (grid s a) \<le> enat (length (closedList s @ [c]))" .
  qed
  have ex1: "expandedInv {c} s1"
    unfolding expandedInv_def nb fl(3) u
  proof (intro ballI impI)
    fix a k
    assume a: "a \<in> set (closedList s1) - {c}" and k: "k \<in> set (addNeighbors s a)"
      and free: "\<not> obstacle (grid s k)"
    have "a \<in> set (closedList s) - {}" using a fl(9) by auto
    with ex k free show "k \<in> set (openList s) \<union> set (closedList s)
        \<and> g (grid s k) \<le> g (grid s a) + 1"
      unfolding expandedInv_def by blast
  qed
  have g1: "goalCell s1 = Some gl" using p1 by (simp add: pathInvariant_def)
  show "visitInv c st gl m s1"
    using sc1 cl1 mo1 top1 dp1 ex1 g1 selectCurrent_closed [OF sel] by (simp add: visitInv_def)
  show "\<forall>k\<in>set (addNeighbors s1 c). k \<in> set (closedList s1) \<longrightarrow>
        g (grid s1 k) \<le> g (grid s1 c) + 1"
    unfolding nb fl(3)
  proof (intro ballI impI)
    fix k assume k: "k \<in> set (addNeighbors s c)" and kc: "k \<in> set (closedList s1)"
    have "k \<noteq> c" using k addNeighbors_irrefl [of c s] by auto
    with kc have kcl: "k \<in> set (closedList s)" by (simp add: fl(9))
    with mo o(1) have fk: "f (grid s k) \<le> f (grid s c)" by (simp add: monoInv_def)
    from sc kcl obtain a where a: "g (grid s k) = enat a"
      "f (grid s k) = enat (a + manhattanDistance k gl)"
      by (auto elim: scoreInvD)
    from sc o(1) obtain b where b: "g (grid s c) = enat b"
      "f (grid s c) = enat (b + manhattanDistance c gl)"
      by (auto elim: scoreInvD)
    have "manhattanDistance c gl \<le> 1 + manhattanDistance k gl"
      using manhattanDistance_triangle [of c gl k] manhattanDistance_neighbor [OF k] by simp
    with fk a(2) b(2) have "a \<le> b + 1" by simp
    then show "g (grid s k) \<le> g (grid s c) + 1" using a(1) b(1) by (simp add: one_enat_def)
  qed
qed

lemma searchInv_pass:
  assumes inv: "searchInv s0 st gl m n s" and ne: "openList s \<noteq> []"
    and sel: "selectCurrent s = (c, s1)" and cg: "c \<noteq> gl"
    and fe: "forEachNeighbor c (addNeighbors s1 c) s1 = Done s2"
    and path: "stepsFree s0 (st # qs)" "last (st # qs) = gl" "length qs = m"
  shows "searchInv s0 st gl m (n + 1) s2"
proof -
  note aw = searchInv_await [OF inv ne sel path]
  note fl = selectCurrent_fields [OF sel]
  have c: "c \<in> set (closedList s1)" by (rule selectCurrent_closed [OF sel])
  have gl: "goalCell s1 = Some gl" using aw(1) by (simp add: pathInvariant_def)
  note fr = forEachNeighbor_frame [OF fe]
  have v2: "visitInv c st gl m s2"
    by (rule forEachNeighbor_visitInv [OF fe aw(2)]) simp
  have "pathInvariant st gl s2" by (rule pathInvariant_forEach [OF aw(1) c fe])
  moreover have "scoreInv st gl s2" "closedInv m s2" "monoInv s2" "depthInv s2"
    using v2 by (simp_all add: visitInv_def)
  moreover have "expandedInv {} s2"
    by (rule forEachNeighbor_expands_current [OF fe gl c _ aw(4)])
       (use v2 in \<open>simp add: visitInv_def\<close>)
  moreover have "gl \<notin> set (closedList s2)" "length (closedList s2) = n + 1"
    using fr aw(3) cg inv by (simp_all add: searchInv_def)
  moreover have "isSimulationRunning s2" "cols s2 = cols s0" "rows s2 = rows s0"
    "finalPath s2 = []"
    using fr fl inv by (simp_all add: searchInv_def)
  moreover have "\<forall>p. obstacle (grid s2 p) = obstacle (grid s0 p)"
    using forEachNeighbor_obstacle [OF fe] fl(3) inv by (simp add: searchInv_def)
  ultimately show ?thesis unfolding searchInv_def by blast
qed

lemma beginSimulation_searchInv:
  assumes "startCell s = Some st" "goalCell s = Some gl" "in_grid s st"
  shows "\<exists>s0. beginSimulation s = Done s0 \<and> searchInv s st gl m 0 s0"
proof -
  from beginSimulation_start [OF assms] obtain s0 where
    s0: "beginSimulation s = Done s0" "openList s0 = [st]" "closedList s0 = []"
      "isSimulationRunning s0" "goalCell s0 = Some gl" "cols s0 = cols s" "rows s0 = rows s"
      "grid s0 st = (grid s st)\<lparr>g := 0, h := enat (manhattanDistance st gl),
            f := enat (manhattanDistance st gl), parent := None\<rparr>"
      "\<forall>p. obstacle (grid s0 p) = obstacle (grid s p)" "finalPath s0 = []"
    by blast
  have "pathInvariant st gl s0"
    using s0(2,3,5,8) by (simp add: pathInvariant_def treeInv_def listsDisjoint_def)
  moreover have "scoreInv st gl s0"
    using s0(2,3,6,7,8) assms(3) in_grid_eq [OF s0(6,7)]
    by (simp add: scoreInv_def zero_enat_def)
  moreover have "closedInv m s0" "expandedInv {} s0" "monoInv s0"
    using s0(3) by (simp_all add: closedInv_def expandedInv_def monoInv_def)
  moreover have "depthInv s0"
    using s0(2,3,8) by (simp add: depthInv_def zero_enat_def)
  ultimately have "searchInv s st gl m 0 s0"
    using s0(3,4,6,7,9,10) unfolding searchInv_def by simp
  with s0(1) show ?thesis by blast
qed

lemma withinReach_finite: "finite (withinReach s st gl m)"
  by (rule finite_subset [OF _ grid_finite [of s]]) (auto simp: withinReach_def)

lemma withinReach_card: "card (withinReach s st gl m) \<le> nat (cols s) * nat (rows s)"
proof -
  have "card (withinReach s st gl m) \<le> card {p. in_grid s p}"
    by (rule card_mono [OF grid_finite]) (auto simp: withinReach_def)
  then show ?thesis by (simp add: grid_card)
qed

lemma closed_count:
  assumes "distinct (closedList s)" "set (closedList s) \<subseteq> A" "finite A"
    "gl \<in> A" "gl \<notin> set (closedList s)"
  shows "Suc (length (closedList s)) \<le> card A"
proof -
  have "insert gl (set (closedList s)) \<subseteq> A" using assms(2,4) by auto
  then have "card (insert gl (set (closedList s))) \<le> card A"
    by (rule card_mono [OF assms(3)])
  moreover have "card (insert gl (set (closedList s))) = Suc (length (closedList s))"
    using assms(1,5) by (simp add: distinct_card)
  ultimately show ?thesis by simp
qed

lemma closedInvD: "closedInv m s \<Longrightarrow> c \<in> set (closedList s) \<Longrightarrow> f (grid s c) \<le> enat m"
  by (simp add: closedInv_def)

lemma depthInvD:
  "depthInv s \<Longrightarrow> c \<in> set (closedList s) \<Longrightarrow> g (grid s c) < enat (length (closedList s))"
  by (simp add: depthInv_def)

lemma closed_withinReach:
  assumes "scoreInv st gl s" "closedInv m s" "cols s = cols s0" "rows s = rows s0"
  shows "set (closedList s) \<subseteq> withinReach s0 st gl m"
proof
  fix c assume c: "c \<in> set (closedList s)"
  then have "c \<in> set (openList s) \<union> set (closedList s)" by simp
  from scoreInvD [OF assms(1) this] obtain k where k: "manhattanDistance st c \<le> k"
    "f (grid s c) = enat (k + manhattanDistance c gl)" "in_grid s c" by blast
  have "k + manhattanDistance c gl \<le> m" using closedInvD [OF assms(2) c] k(2) by simp
  with k(1,3) in_grid_eq [OF assms(3,4)] show "c \<in> withinReach s0 st gl m"
    by (simp add: withinReach_def)
qed

lemma whileLoop_searchInv:
  assumes inv: "searchInv s0 st gl m n s" and n: "n \<le> iterationCap"
    and path: "stepsFree s0 (st # qs)" "last (st # qs) = gl" "length qs = m"
    and ig: "in_grid s0 st"
  shows "\<exists>e t. whileLoop n s = Some (e, t) \<and> searchEnd s0 st gl m e t"
proof (rule whileLoop_total
    [where I = "\<lambda>n s. searchInv s0 st gl m n s \<and> n \<le> iterationCap"])
  show "searchInv s0 st gl m n s \<and> n \<le> iterationCap" using inv n by simp
next
  fix n s c s1 s2
  assume a: "searchInv s0 st gl m n s \<and> n \<le> iterationCap" "openList s \<noteq> []"
    "selectCurrent s = (c, s1)" "expandCurrent (n + 1) c s1 = Some (Next s2)"
  have i: "searchInv s0 st gl m n s" using a(1) by simp
  have gl: "goalCell s1 = Some gl"
    using searchInv_await(1) [OF i a(2,3) path] by (simp add: pathInvariant_def)
  from expandCurrent_Next_forEach [OF a(4)] gl
  have "c \<noteq> gl" "forEachNeighbor c (addNeighbors s1 c) s1 = Done s2" "n + 1 \<le> iterationCap"
    by auto
  then show "searchInv s0 st gl m (n + 1) s2 \<and> n + 1 \<le> iterationCap"
    using searchInv_pass [OF i a(2,3) _ _ path] by simp
next
  fix n s c s1
  assume a: "searchInv s0 st gl m n s \<and> n \<le> iterationCap" "openList s \<noteq> []"
    "selectCurrent s = (c, s1)"
  have i: "searchInv s0 st gl m n s" and n: "n \<le> iterationCap" using a(1) by simp_all
  note aw = searchInv_await [OF i a(2,3) path]
  have v1: "scoreInv st gl s1" "closedInv m s1" "depthInv s1"
    using aw(2) by (simp_all add: visitInv_def)
  have gl: "goalCell s1 = Some gl" using aw(1) by (simp add: pathInvariant_def)
  have c: "c \<in> set (closedList s1)" by (rule selectCurrent_closed [OF a(3)])
  have fl: "cols s1 = cols s0" "rows s1 = rows s0" "length (closedList s1) = n + 1"
    "finalPath s1 = []"
    using selectCurrent_fields [OF a(3)] i by (simp_all add: searchInv_def)
  show "\<exists>r. expandCurrent (n + 1) c s1 = Some r
      \<and> (\<forall>e t. r = Exit e t \<longrightarrow> searchEnd s0 st gl m e t)"
  proof (cases "c = gl")
    case True
    from pathInvariant_goal [OF aw(1)] c True obtain t where
      t: "reconstructPath gl s1 = Some t" "pathFound st gl t" "grid t = grid s1"
        "closedList t = closedList s1" by blast
    from scoreInvD [OF v1(1), of gl] c True obtain k where
      k: "g (grid s1 gl) = enat k" "f (grid s1 gl) = enat (k + manhattanDistance gl gl)"
      by auto
    have "f (grid s1 gl) \<le> enat m" using closedInvD [OF v1(2)] c True by simp
    then have "g (grid s1 gl) \<le> enat m" using k by simp
    moreover have "g (grid s1 gl) < enat (length (closedList s1))"
      using depthInvD [OF v1(3)] c True by simp
    ultimately have "searchEnd s0 st gl m GoalFound t"
      using t fl(3) n by (simp add: searchEnd_def)
    with t(1) True gl show ?thesis by (simp add: expandCurrent_def)
  next
    case False
    from forEachNeighbor_total [OF gl, of c "addNeighbors s1 c"] obtain t where
      t: "forEachNeighbor c (addNeighbors s1 c) s1 = Done t" by blast
    have i2: "searchInv s0 st gl m (n + 1) t"
      by (rule searchInv_pass [OF i a(2,3) False t path])
    from searchInv_open_cell [OF i2 path] have open_t: "openList t \<noteq> []" by auto
    have ft: "finalPath t = []" "length (closedList t) = n + 1"
      using i2 by (simp_all add: searchInv_def)
    show ?thesis
    proof (cases "n + 1 > iterationCap")
      case over: True
      have "\<not> card (withinReach s0 st gl m) \<le> Suc iterationCap"
      proof
        assume small: "card (withinReach s0 st gl m) \<le> Suc iterationCap"
        have "distinct (closedList s1)"
          using aw(1) by (simp add: pathInvariant_def listsDisjoint_def)
        moreover have "set (closedList s1) \<subseteq> withinReach s0 st gl m"
          by (rule closed_withinReach [OF v1(1,2) fl(1,2)])
        moreover have "gl \<in> withinReach s0 st gl m"
          using stepsFree_in_grid [OF path(1) ig] stepsFree_distance [OF path(1)] path(2,3)
          by (simp add: withinReach_def)
        moreover have "gl \<notin> set (closedList s1)"
          using aw(3) False i by (simp add: searchInv_def)
        ultimately have "Suc (length (closedList s1)) \<le> card (withinReach s0 st gl m)"
          using withinReach_finite by (intro closed_count) auto
        with small fl(3) over show False by simp
      qed
      moreover have "expandCurrent (n + 1) c s1 = Some (Exit CapExceeded t)"
        using t False gl over by (simp add: expandCurrent_def)
      ultimately show ?thesis using open_t ft n by (simp add: searchEnd_def)
    next
      case False
      then show ?thesis using t \<open>c \<noteq> gl\<close> gl by (simp add: expandCurrent_def)
    qed
  qed
next
  fix n s
  assume a: "searchInv s0 st gl m n s \<and> n \<le> iterationCap" "openList s = []"
  from searchInv_open_cell [OF conjunct1 [OF a(1)] path] a(2) have False by simp
  then show "searchEnd s0 st gl m OpenExhausted s" ..
next
  fix n s
  assume "searchInv s0 st gl m n s \<and> n \<le> iterationCap" "\<not> isSimulationRunning s"
  then have False by (simp add: searchInv_def)
  then show "searchEnd s0 st gl m Stopped s" ..
qed

lemma pathFound_lengths:
  assumes "pathFound st gl t"
  shows "Suc (manhattanDistance st gl) \<le> length (finalPath t)"
    and "g (grid t gl) \<le> enat m \<Longrightarrow> length (finalPath t) \<le> Suc m"
    and "g (grid t gl) < enat k \<Longrightarrow> length (finalPath t) \<le> k"
proof -
  from assms obtain a as where fp: "finalPath t = a # as"
    by (cases "finalPath t") (auto simp: pathFound_def)
  have "stepsFree t (a # as)" "a = st" "last (a # as) = gl"
    using assms fp by (auto simp: pathFound_def)
  with stepsFree_distance [of t a as] fp
  show "Suc (manhattanDistance st gl) \<le> length (finalPath t)" by simp
  have len: "enat (length (finalPath t)) = g (grid t gl) + 1"
    using assms by (simp add: pathFound_def)
  show "length (finalPath t) \<le> Suc m" if "g (grid t gl) \<le> enat m"
    using that len by (cases "g (grid t gl)") (simp_all add: one_enat_def)
  show "length (finalPath t) \<le> k" if "g (grid t gl) < enat k"
    using that len by (cases "g (grid t gl)") (simp_all add: one_enat_def)
qed

text \<open>A run on a grid with a free path of \<open>length qs\<close> steps from start to goal.\<close>

lemma run_on_connected_grid:
  assumes "startCell s = Some st" and "goalCell s = Some gl" and "in_grid s st"
    and "\<not> isSimulationRunning s"
    and "stepsFree s (st # qs)" and "last (st # qs) = gl"
  shows "\<exists>e t. startSimulation s = Some (e, t) \<and> (e = GoalFound \<or> e = CapExceeded)
       \<and> (card (withinReach s st gl (length qs)) \<le> Suc iterationCap \<longrightarrow> e = GoalFound)
       \<and> (e = GoalFound \<longrightarrow> hd (finalPath t) = st \<and> last (finalPath t) = gl
              \<and> stepsFree t (finalPath t)
              \<and> Suc (manhattanDistance st gl) \<le> length (finalPath t)
              \<and> length (finalPath t) \<le> Suc (length qs)
              \<and> length (finalPath t) \<le> length (closedList t))
       \<and> (e = CapExceeded \<longrightarrow> openList t \<noteq> [] \<and> finalPath t = [])
       \<and> length (closedList t) \<le> Suc iterationCap \<and> \<not> isSimulationRunning t"
proof -
  from beginSimulation_searchInv [OF assms(1-3), of "length qs"] obtain s0 where
    s0: "beginSimulation s = Done s0" "searchInv s st gl (length qs) 0 s0" by blast
  from whileLoop_searchInv [OF s0(2) _ assms(5,6) refl assms(3)] obtain e t where
    w: "whileLoop 0 s0 = Some (e, t)" "searchEnd s st gl (length qs) e t" by auto
  let ?t = "t\<lparr>isSimulationRunning := False\<rparr>"
  have e: "e = GoalFound \<or> e = CapExceeded" using w(2) by (simp add: searchEnd_def)
  then have run: "startSimulation s = Some (e, ?t)"
    using assms(4) s0(1) w(1) by (auto simp: startSimulation_def)
  have "hd (finalPath ?t) = st \<and> last (finalPath ?t) = gl \<and> stepsFree ?t (finalPath ?t)
      \<and> Suc (manhattanDistance st gl) \<le> length (finalPath ?t)
      \<and> length (finalPath ?t) \<le> Suc (length qs)
      \<and> length (finalPath ?t) \<le> length (closedList ?t)" if "e = GoalFound"
  proof -
    have pf: "pathFound st gl t" "g (grid t gl) \<le> enat (length qs)"
      "g (grid t gl) < enat (length (closedList t))"
      using w(2) that by (simp_all add: searchEnd_def)
    have "pathFound st gl ?t" by (rule pathFound_epilogue [OF pf(1)])
    then have "hd (finalPath ?t) = st" "last (finalPath ?t) = gl" "stepsFree ?t (finalPath ?t)"
      by (simp_all add: pathFound_def)
    with pathFound_lengths [OF pf(1)] pf(2,3) show ?thesis by simp
  qed
  moreover have "e = CapExceeded \<longrightarrow> openList ?t \<noteq> [] \<and> finalPath ?t = []"
    using w(2) by (simp add: searchEnd_def)
  moreover have "length (closedList ?t) \<le> Suc iterationCap"
    "card (withinReach s st gl (length qs)) \<le> Suc iterationCap \<longrightarrow> e = GoalFound"
    using w(2) by (simp_all add: searchEnd_def)
  ultimately show ?thesis using run e by (intro exI [of _ e] exI [of _ ?t]) simp
qed

lemma run_without_obstacles:
  assumes "startCell s = Some st" and "goalCell s = Some gl"
    and "in_grid s st" and "in_grid s gl" and "\<not> isSimulationRunning s"
    and "\<forall>c. in_grid s c \<longrightarrow> \<not> obstacle (grid s c)"
  shows "\<exists>e t. startSimulation s = Some (e, t) \<and> (e = GoalFound \<or> e = CapExceeded)
       \<and> (nat (cols s) * nat (rows s) \<le> Suc iterationCap \<longrightarrow> e = GoalFound)
       \<and> (e = GoalFound \<longrightarrow> length (finalPath t) = Suc (manhattanDistance st gl)
              \<and> length (finalPath t) \<le> length (closedList t))
       \<and> (e = CapExceeded \<longrightarrow> openList t \<noteq> [] \<and> finalPath t = [])
       \<and> length (closedList t) \<le> Suc iterationCap \<and> \<not> isSimulationRunning t"
proof -
  let ?m = "manhattanDistance st gl"
  from walk_free [OF assms(4,6,3) refl]
  have w: "stepsFree s (st # walk ?m st gl)" "last (st # walk ?m st gl) = gl"
    "length (walk ?m st gl) = ?m"
    by simp_all
  from run_on_connected_grid [OF assms(1,2,3,5) w(1,2)] obtain e t where
    r: "startSimulation s = Some (e, t)" "e = GoalFound \<or> e = CapExceeded"
      "card (withinReach s st gl ?m) \<le> Suc iterationCap \<longrightarrow> e = GoalFound"
      "e = GoalFound \<longrightarrow> Suc ?m \<le> length (finalPath t) \<and> length (finalPath t) \<le> Suc ?m
          \<and> length (finalPath t) \<le> length (closedList t)"
      "e = CapExceeded \<longrightarrow> openList t \<noteq> [] \<and> finalPath t = []"
      "length (closedList t) \<le> Suc iterationCap" "\<not> isSimulationRunning t"
    unfolding w(3) by blast
  have "nat (cols s) * nat (rows s) \<le> Suc iterationCap \<longrightarrow> e = GoalFound"
    using r(3) withinReach_card [of s st gl ?m] by simp
  with r show ?thesis by (intro exI [of _ e] exI [of _ t]) auto
qed

text \<open>A goal farther from the start than the cap allows is not reached.\<close>

lemma run_without_obstacles_far:
  assumes "startCell s = Some st" and "goalCell s = Some gl"
    and "in_grid s st" and "in_grid s gl" and "\<not> isSimulationRunning s"
    and "\<forall>c. in_grid s c \<longrightarrow> \<not> obstacle (grid s c)"
    and "iterationCap < manhattanDistance st gl"
  shows "\<exists>t. startSimulation s = Some (CapExceeded, t) \<and> openList t \<noteq> [] \<and> finalPath t = []
       \<and> \<not> isSimulationRunning t"
proof -
  from run_without_obstacles [OF assms(1-6)] obtain e t where
    r: "startSimulation s = Some (e, t)" "e = GoalFound \<or> e = CapExceeded"
      "e = GoalFound \<longrightarrow> length (finalPath t) = Suc (manhattanDistance st gl)
          \<and> length (finalPath t) \<le> length (closedList t)"
      "e = CapExceeded \<longrightarrow> openList t \<noteq> [] \<and> finalPath t = []"
      "length (closedList t) \<le> Suc iterationCap" "\<not> isSimulationRunning t"
    by blast
  have "e \<noteq> GoalFound" using r(3,5) assms(7) by auto
  with r show ?thesis by auto
qed

section \<open>The passes of a run\<close>

text \<open>The passes of a run and its closed cells: each pass closes one cell.\<close>

lemma expandCurrent_closedList:
  assumes "expandCurrent k c s = Some r" "goalCell s \<noteq> None" "r = Next t \<or> r = Exit e t"
  shows "closedList t = closedList s"
  using assms(1,2)
proof (cases rule: expandCurrent_cases)
  case (goal u)
  then show ?thesis using assms(3) reconstructPath_fields(7) [of c s u] by auto
next
  case (cap u)
  then show ?thesis using assms(3) forEachNeighbor_closedList by auto
next
  case (continue u)
  then show ?thesis using assms(3) forEachNeighbor_closedList by auto
qed

lemma whileLoop_passes:
  "whileLoop n s = Some (e, t) \<Longrightarrow> goalCell s \<noteq> None \<Longrightarrow>
   length (closedList t) = length (closedList s) + length (loopTrace n s)"
proof (induction n s rule: whileLoop.induct)
  case (1 n s)
  show ?case
  proof (cases "openList s = [] \<or> \<not> isSimulationRunning s")
    case True
    then show ?thesis using "1.prems"
      by (cases "openList s = []") (auto simp: loopTrace_done whileLoop_empty whileLoop_stopped)
  next
    case False
    obtain c s1 where sel: "selectCurrent s = (c, s1)" by (cases "selectCurrent s")
    have w: "whileLoop n s =
       (case expandCurrent (n + 1) c s1 of None \<Rightarrow> None
        | Some (Exit e s') \<Rightarrow> Some (e, s')
        | Some (Next s') \<Rightarrow> whileLoop (n + 1) s')"
      using False by (intro whileLoop_pass [OF _ _ sel]) simp_all
    have l: "loopTrace n s = (n + 1, sleep s1, c, s1) #
       (case expandCurrent (n + 1) c s1 of Some (Next s') \<Rightarrow> loopTrace (n + 1) s' | _ \<Rightarrow> [])"
      using False by (intro loopTrace_pass [OF _ _ sel]) simp_all
    have g1: "goalCell s1 \<noteq> None" "closedList s1 = closedList s @ [c]"
      using selectCurrent_fields(5,9) [OF sel] "1.prems"(2) by simp_all
    show ?thesis
    proof (cases "expandCurrent (n + 1) c s1")
      case None
      then show ?thesis using w "1.prems" by simp
    next
      case (Some r)
      show ?thesis
      proof (cases r)
        case (Next s2)
        have c2: "closedList s2 = closedList s1"
          by (rule expandCurrent_closedList [OF Some g1(1)]) (simp add: Next)
        have g2: "goalCell s2 \<noteq> None"
          using expandCurrent_Next_goalCell [of "n + 1" c s1 s2] Some Next g1(1) by simp
        have "whileLoop (n + 1) s2 = Some (e, t)" using w "1.prems"(1) Some Next by simp
        moreover have "openList s \<noteq> []" "\<not> \<not> isSimulationRunning s" using False by simp_all
        ultimately have "length (closedList t) =
            length (closedList s2) + length (loopTrace (n + 1) s2)"
          using "1.IH" [OF _ _ sel [symmetric] Some Next _ g2] by simp
        then show ?thesis using l Some Next c2 g1(2) by simp
      next
        case (Exit e' u)
        have "closedList u = closedList s1"
          by (rule expandCurrent_closedList [OF Some g1(1)]) (simp add: Exit)
        then show ?thesis using l w "1.prems"(1) Some Exit g1(2) by simp
      qed
    qed
  qed
qed

lemma whileLoop_capEnd:
  assumes "pathInvariant st gl s" "length (closedList s) = n" "n \<le> iterationCap"
    "finalPath s = []"
  shows "\<exists>e t. whileLoop n s = Some (e, t) \<and> capEnd gl e t"
proof (rule whileLoop_total [where I = "\<lambda>n s. pathInvariant st gl s
      \<and> length (closedList s) = n \<and> n \<le> iterationCap \<and> finalPath s = []"])
  show "pathInvariant st gl s \<and> length (closedList s) = n \<and> n \<le> iterationCap
      \<and> finalPath s = []"
    using assms by simp
next
  fix n s c s1 s2
  assume a: "pathInvariant st gl s \<and> length (closedList s) = n \<and> n \<le> iterationCap
      \<and> finalPath s = []"
    "openList s \<noteq> []" "selectCurrent s = (c, s1)"
    "expandCurrent (n + 1) c s1 = Some (Next s2)"
  have i1: "pathInvariant st gl s1" by (rule pathInvariant_await [OF conjunct1 [OF a(1)] a(2,3)])
  note fe = expandCurrent_Next_forEach [OF a(4)]
  note fr = forEachNeighbor_frame [OF conjunct1 [OF conjunct2 [OF fe]]]
  have "pathInvariant st gl s2"
    by (rule pathInvariant_forEach [OF i1 selectCurrent_closed [OF a(3)]]) (use fe in simp)
  then show "pathInvariant st gl s2 \<and> length (closedList s2) = n + 1
      \<and> n + 1 \<le> iterationCap \<and> finalPath s2 = []"
    using fe fr selectCurrent_fields(6,9) [OF a(3)] a(1) by simp
next
  fix n s c s1
  assume a: "pathInvariant st gl s \<and> length (closedList s) = n \<and> n \<le> iterationCap
      \<and> finalPath s = []"
    "openList s \<noteq> []" "selectCurrent s = (c, s1)"
  have i1: "pathInvariant st gl s1" by (rule pathInvariant_await [OF conjunct1 [OF a(1)] a(2,3)])
  then have gl: "goalCell s1 = Some gl" by (simp add: pathInvariant_def)
  have s1: "closedList s1 = closedList s @ [c]" "finalPath s1 = []"
    "length (closedList s) = n" "n \<le> iterationCap"
    using selectCurrent_fields(6,9) [OF a(3)] a(1) by simp_all
  show "\<exists>r. expandCurrent (n + 1) c s1 = Some r \<and> (\<forall>e t. r = Exit e t \<longrightarrow> capEnd gl e t)"
  proof (cases "c = gl")
    case True
    from pathInvariant_goal [OF i1] selectCurrent_closed [OF a(3)] True obtain t where
      t: "reconstructPath gl s1 = Some t" "closedList t = closedList s1" by blast
    have "capEnd gl GoalFound t" using t(2) s1 True by (simp add: capEnd_def)
    with t(1) True gl show ?thesis by (simp add: expandCurrent_def)
  next
    case False
    from forEachNeighbor_total [OF gl, of c "addNeighbors s1 c"] obtain t where
      t: "forEachNeighbor c (addNeighbors s1 c) s1 = Done t" by blast
    note fr = forEachNeighbor_frame [OF t]
    have "capEnd gl CapExceeded t" if "n + 1 > iterationCap"
      using that fr s1 False by (simp add: capEnd_def)
    then show ?thesis using t False gl by (simp add: expandCurrent_def)
  qed
next
  fix n s
  assume "pathInvariant st gl s \<and> length (closedList s) = n \<and> n \<le> iterationCap
      \<and> finalPath s = []"
  then show "capEnd gl OpenExhausted s" "capEnd gl Stopped s"
    by (simp_all add: capEnd_def)
qed

lemma run_counts:
  assumes "startCell s = Some st" and "goalCell s = Some gl" and "in_grid s st"
    and "\<not> isSimulationRunning s"
  shows "\<exists>e t. startSimulation s = Some (e, t)
       \<and> map fst (startTrace s) = map Suc [0..<length (closedList t)]
       \<and> length (closedList t) \<le> Suc iterationCap
       \<and> (e = CapExceeded \<longleftrightarrow>
             length (closedList t) = Suc iterationCap \<and> last (closedList t) \<noteq> gl)
       \<and> (e = CapExceeded \<longrightarrow> \<not> isSimulationRunning t \<and> finalPath t = [])"
proof -
  from beginSimulation_pathInvariant [OF assms(1-3)] obtain s0 where
    s0: "beginSimulation s = Done s0" "pathInvariant st gl s0" by blast
  have l0: "closedList s0 = []" "finalPath s0 = []"
    using beginSimulation_Done_lists [OF s0(1)] by simp_all
  from whileLoop_capEnd [OF s0(2), of 0] l0 obtain e t where
    w: "whileLoop 0 s0 = Some (e, t)" "capEnd gl e t" by auto
  have g0: "goalCell s0 \<noteq> None" using s0(2) by (simp add: pathInvariant_def)
  have "e \<noteq> TypeError" by (rule whileLoop_TypeError [OF w(1) g0])
  then have run: "startSimulation s = Some (e, t\<lparr>isSimulationRunning := False\<rparr>)"
    using assms(4) s0(1) w(1) by (simp add: startSimulation_def)
  have "length (closedList t) = length (loopTrace 0 s0)"
    using whileLoop_passes [OF w(1) g0] l0 by simp
  moreover have "startTrace s = loopTrace 0 s0"
    using assms(4) s0(1) by (simp add: startTrace_def)
  ultimately have "map fst (startTrace s) = map Suc [0..<length (closedList t)]"
    using loopTrace_counters [of 0 s0] by simp
  with run w(2) show ?thesis
    by (intro exI [of _ e] exI [of _ "t\<lparr>isSimulationRunning := False\<rparr>"])
       (simp add: capEnd_def)
qed

section \<open>Runs on connected grids\<close>

text \<open>
  Claim C1, as amended. On every grid on which some path from the start cell to the goal
  cell is free of obstacles, a run returns, and it ends at the goal unless the iteration
  cap ends it, after 5001 expansions and with cells still open. The cap does not end it
  when the grid has at most 5001 cells over which the way from start to goal, in
  Manhattan distance, is no longer than that free path. When the run ends at the goal, the
  reconstructed path leads from the start cell to the goal cell over neighbouring cells
  that are not obstacles, and it is a shortest such path: it has at least as many steps as
  the Manhattan distance and no more than the free path, hence exactly as many as the
  Manhattan distance when the free path has that length.
\<close>

theorem connected_grid_run:
  assumes "startCell s = Some st" and "goalCell s = Some gl" and "in_grid s st"
    and "\<not> isSimulationRunning s"
    and "stepsFree s (st # qs)" and "last (st # qs) = gl"
  shows "\<exists>e t. startSimulation s = Some (e, t) \<and> (e = GoalFound \<or> e = CapExceeded)
       \<and> (e = CapExceeded \<longrightarrow> length (closedList t) = Suc iterationCap \<and> openList t \<noteq> [])
       \<and> (card {c. in_grid s c
                  \<and> manhattanDistance st c + manhattanDistance c gl \<le> length qs}
             \<le> Suc iterationCap \<longrightarrow> e = GoalFound)
       \<and> (e = GoalFound \<longrightarrow> hd (finalPath t) = st \<and> last (finalPath t) = gl
              \<and> stepsFree t (finalPath t)
              \<and> Suc (manhattanDistance st gl) \<le> length (finalPath t)
              \<and> length (finalPath t) \<le> Suc (length qs)
              \<and> (length qs = manhattanDistance st gl \<longrightarrow>
                    length (finalPath t) = Suc (manhattanDistance st gl)))"
proof -
  from run_on_connected_grid [OF assms] obtain e t where
    r: "startSimulation s = Some (e, t)" "e = GoalFound \<or> e = CapExceeded"
      "card (withinReach s st gl (length qs)) \<le> Suc iterationCap \<longrightarrow> e = GoalFound"
      "e = GoalFound \<longrightarrow> hd (finalPath t) = st \<and> last (finalPath t) = gl
          \<and> stepsFree t (finalPath t)
          \<and> Suc (manhattanDistance st gl) \<le> length (finalPath t)
          \<and> length (finalPath t) \<le> Suc (length qs)"
      "e = CapExceeded \<longrightarrow> openList t \<noteq> [] \<and> finalPath t = []"
    by blast
  from run_counts [OF assms(1-4)] r(1)
  have "e = CapExceeded \<longrightarrow> length (closedList t) = Suc iterationCap" by auto
  with r show ?thesis
    unfolding withinReach_def by (intro exI [of _ e] exI [of _ t]) auto
qed

theorem connected_grid_run_witness:
  "startCell (setObstacle (1, 0) True (setupState 3 3 (0, 0) (2, 0))) = Some (0, 0)
   \<and> goalCell (setObstacle (1, 0) True (setupState 3 3 (0, 0) (2, 0))) = Some (2, 0)
   \<and> in_grid (setObstacle (1, 0) True (setupState 3 3 (0, 0) (2, 0))) (0, 0)
   \<and> \<not> isSimulationRunning (setObstacle (1, 0) True (setupState 3 3 (0, 0) (2, 0)))
   \<and> stepsFree (setObstacle (1, 0) True (setupState 3 3 (0, 0) (2, 0)))
        [(0, 0), (0, 1), (1, 1), (2, 1), (2, 0)]
   \<and> last [(0, 0), (0, 1), (1, 1), (2, 1), (2 :: int, 0 :: int)] = (2, 0)
   \<and> card {c. in_grid (setObstacle (1, 0) True (setupState 3 3 (0, 0) (2, 0))) c
              \<and> manhattanDistance (0, 0) c + manhattanDistance c (2, 0)
                  \<le> length [(0, 1), (1, 1), (2, 1), (2 :: int, 0 :: int)]}
        \<le> Suc iterationCap
   \<and> (\<exists>t. startSimulation (setObstacle (1, 0) True (setupState 3 3 (0, 0) (2, 0)))
            = Some (GoalFound, t)
        \<and> hd (finalPath t) = (0, 0) \<and> last (finalPath t) = (2, 0)
        \<and> stepsFree t (finalPath t)
        \<and> 3 \<le> length (finalPath t) \<and> length (finalPath t) \<le> 5)"
proof -
  let ?s = "setObstacle (1, 0) True (setupState 3 3 (0, 0) (2, 0))"
  let ?qs = "[(0, 1), (1, 1), (2, 1), (2 :: int, 0 :: int)]"
  have h: "startCell ?s = Some (0, 0)" "goalCell ?s = Some (2, 0)" "in_grid ?s (0, 0)"
    "\<not> isSimulationRunning ?s" "stepsFree ?s ((0, 0) # ?qs)" "last ((0, 0) # ?qs) = (2, 0)"
    by (simp_all add: setObstacle_def updCell_def setupState_def in_grid_def addNeighbors_def
          freshCell_def)
  have "card (withinReach ?s (0, 0) (2, 0) (length ?qs)) \<le> nat (cols ?s) * nat (rows ?s)"
    by (rule withinReach_card)
  then have small: "card {c. in_grid ?s c
      \<and> manhattanDistance (0, 0) c + manhattanDistance c (2, 0) \<le> length ?qs}
      \<le> Suc iterationCap"
    by (simp add: withinReach_def setObstacle_def updCell_def setupState_def iterationCap_def)
  have md: "manhattanDistance (0, 0) (2, 0) = 2" by (simp add: manhattanDistance_def)
  from connected_grid_run [OF h] small md h show ?thesis
    by auto
qed

text \<open>
  The claim as the specification has it fails in two ways. Where the obstacles leave a
  way round but no way as short as the Manhattan distance, the path is longer: with the
  cell between start \<open>(0, 0)\<close> and goal \<open>(2, 0)\<close> blocked on a 3 by 3 grid, the run
  ends at the goal with a path of four steps, and the Manhattan distance is two. And where
  the goal is more than 5000 steps away the iteration cap ends the run: on a grid of one row
  of 5002 cells without obstacles, from one end to the other, the run does not end at the
  goal.
\<close>

theorem detour_and_cap_counterexample:
  "map_option fst (startSimulation (setObstacle (1, 0) True (setupState 3 3 (0, 0) (2, 0))))
     = Some GoalFound
   \<and> map_option (finalPath \<circ> snd)
       (startSimulation (setObstacle (1, 0) True (setupState 3 3 (0, 0) (2, 0))))
     = Some [(0, 0), (0, 1), (1, 1), (2, 1), (2, 0)]
   \<and> manhattanDistance (0, 0) (2, 0) = 2
   \<and> map_option fst (startSimulation (setupState 5002 1 (0, 0) (5001, 0))) = Some CapExceeded"
proof -
  have detour: "map_option fst (startSimulation (setObstacle (1, 0) True (setupState 3 3 (0, 0) (2, 0))))
     = Some GoalFound
   \<and> map_option (finalPath \<circ> snd)
       (startSimulation (setObstacle (1, 0) True (setupState 3 3 (0, 0) (2, 0))))
     = Some [(0, 0), (0, 1), (1, 1), (2, 1), (2, 0)]
   \<and> manhattanDistance (0, 0) (2, 0) = 2"
    by code_simp
  let ?s = "setupState 5002 1 (0, 0) (5001, 0)"
  have "\<exists>t. startSimulation ?s = Some (CapExceeded, t) \<and> openList t \<noteq> [] \<and> finalPath t = []
       \<and> \<not> isSimulationRunning t"
    by (rule run_without_obstacles_far [of ?s "(0, 0)" "(5001, 0)"])
       (simp_all add: setupState_def in_grid_def freshCell_def manhattanDistance_def
          iterationCap_def)
  then have "map_option fst (startSimulation ?s) = Some CapExceeded" by auto
  with detour show ?thesis by simp
qed

section \<open>Runs that the iteration cap ends\<close>




end
